theory Spec2Isabelle
  imports Main
begin

section \<open>Data model\<close>

text \<open>
  The JavaScript sources store a cell as one of the strings \<^verbatim>\<open>''\<close>, \<^verbatim>\<open>'X'\<close> and
  \<^verbatim>\<open>'O'\<close>, and a player label as \<^verbatim>\<open>'X'\<close> or \<^verbatim>\<open>'O'\<close>.  A board is an array of
  cells; the game always allocates nine of them.
\<close>

text \<open>(\<open>O\<close> alone is the relation composition operator of HOL, hence the longer names.)\<close>

datatype player = PlayerX | PlayerO

datatype cell = Empty | Mark player

type_synonym board = "cell list"

text \<open>
  Reading \<^verbatim>\<open>board[i]\<close>: an index past the end of a JavaScript array yields
  \<^verbatim>\<open>undefined\<close>, which is neither \<^verbatim>\<open>''\<close> nor a mark; it is \<open>None\<close> here.
\<close>

definition cellAt :: "board \<Rightarrow> nat \<Rightarrow> cell option" where
  "cellAt b i = (if i < length b then Some (b ! i) else None)"

type_synonym pattern = "nat \<times> nat \<times> nat"

definition winPatterns :: "pattern list" where
  "winPatterns =
     [(0, 1, 2), (3, 4, 5), (6, 7, 8),
      (0, 3, 6), (1, 4, 7), (2, 5, 8),
      (0, 4, 8), (2, 4, 6)]"

text \<open>
  The loop \<^verbatim>\<open>for (let pattern of winPatterns)\<close> with the test
  \<^verbatim>\<open>board[a] && board[a] === board[b] && board[a] === board[c]\<close>, shared verbatim by
  \<^verbatim>\<open>checkGameStatus\<close> (game) and \<^verbatim>\<open>checkWinner\<close> (AI).  It yields the mark and
  the pattern of the first completed line.
\<close>

fun scanPatterns :: "board \<Rightarrow> pattern list \<Rightarrow> (player \<times> pattern) option" where
  "scanPatterns b [] = None"
| "scanPatterns b ((a, b', c) # ps) =
     (case cellAt b a of
        Some (Mark p) \<Rightarrow>
          if cellAt b b' = Some (Mark p) \<and> cellAt b c = Some (Mark p)
          then Some (p, (a, b', c))
          else scanPatterns b ps
      | _ \<Rightarrow> scanPatterns b ps)"


section \<open>The game engine (game script)\<close>

datatype mode = AI | TwoPlayer

record moveRecord =
  index :: nat
  player :: player

record gameState =
  board :: board
  currentPlayer :: player
  gameMode :: mode
  scoreX :: nat
  scoreO :: nat
  draws :: nat
  winningLine :: "pattern option"
  moveHistory :: "moveRecord list"
  isProcessing :: bool

text \<open>\<^verbatim>\<open>gameState.maxMoves\<close> is initialised to 9 and never assigned.\<close>

definition maxMoves :: nat where
  "maxMoves = 9"

definition emptyBoard :: board where
  "emptyBoard = [Empty, Empty, Empty, Empty, Empty, Empty, Empty, Empty, Empty]"

definition initialState :: gameState where
  "initialState =
     \<lparr>board = emptyBoard, currentPlayer = PlayerX, gameMode = AI,
      scoreX = 0, scoreO = 0, draws = 0, winningLine = None,
      moveHistory = [], isProcessing = False\<rparr>"

definition resetGame :: "gameState \<Rightarrow> gameState" where
  "resetGame s =
     s\<lparr>board := emptyBoard, currentPlayer := PlayerX, winningLine := None, moveHistory := []\<rparr>"

definition setGameMode :: "gameState \<Rightarrow> mode \<Rightarrow> gameState" where
  "setGameMode s m = resetGame (s\<lparr>gameMode := m\<rparr>)"

definition otherPlayer :: "player \<Rightarrow> player" where
  "otherPlayer p = (if p = PlayerX then PlayerO else PlayerX)"

text \<open>
  \<^verbatim>\<open>makeMove(index)\<close>: when the history already holds \<open>maxMoves\<close> records the oldest
  one is shifted out and its cell cleared; then the mark is written, the move recorded and
  the turn passed.  The function itself validates nothing.  Both call sites pass an index
  whose cell they have just read as \<^verbatim>\<open>''\<close>, hence one inside the array.
\<close>

definition evictOldest :: "gameState \<Rightarrow> gameState" where
  "evictOldest s =
     (if length (moveHistory s) \<ge> maxMoves then
        (case moveHistory s of
           [] \<Rightarrow> s
         | oldestMove # rest \<Rightarrow>
             s\<lparr>moveHistory := rest, board := (board s)[index oldestMove := Empty]\<rparr>)
      else s)"

definition makeMove :: "gameState \<Rightarrow> nat \<Rightarrow> gameState" where
  "makeMove s i =
     (let s1 = evictOldest s;
          s2 = s1\<lparr>board := (board s1)[i := Mark (currentPlayer s1)]\<rparr>;
          s3 = s2\<lparr>moveHistory := moveHistory s2 @ [\<lparr>index = i, player = currentPlayer s2\<rparr>]\<rparr>
      in s3\<lparr>currentPlayer := otherPlayer (currentPlayer s3)\<rparr>)"

definition handleWin :: "gameState \<Rightarrow> player \<Rightarrow> pattern \<Rightarrow> gameState" where
  "handleWin s winner pat =
     (let s1 = s\<lparr>winningLine := Some pat\<rparr>
      in if winner = PlayerX then s1\<lparr>scoreX := scoreX s1 + 1\<rparr> else s1\<lparr>scoreO := scoreO s1 + 1\<rparr>)"

definition handleDraw :: "gameState \<Rightarrow> gameState" where
  "handleDraw s = s\<lparr>draws := draws s + 1\<rparr>"

text \<open>
  \<^verbatim>\<open>checkGameStatus()\<close> returns \<^verbatim>\<open>true\<close> (game ended) after calling
  \<^verbatim>\<open>handleWin\<close> for the first completed line, and \<^verbatim>\<open>false\<close> (game continues)
  otherwise.  It never calls \<^verbatim>\<open>handleDraw\<close>.
\<close>

definition checkGameStatus :: "gameState \<Rightarrow> bool \<times> gameState" where
  "checkGameStatus s =
     (case scanPatterns (board s) winPatterns of
        Some (winner, pat) \<Rightarrow> (True, handleWin s winner pat)
      | None \<Rightarrow> (False, s))"

text \<open>
  \<^verbatim>\<open>handleCellClick(event)\<close>, up to the point where it schedules the AI's reply.
  The index comes from \<^verbatim>\<open>parseInt\<close> and may be any integer; a negative one reads
  \<^verbatim>\<open>undefined\<close> like one past the end (and so does \<^verbatim>\<open>NaN\<close>, which takes the same
  early return).  Every path returns \<^verbatim>\<open>undefined\<close> and none
  throws, so the result is the state alone.
\<close>

definition handleCellClick :: "gameState \<Rightarrow> int \<Rightarrow> gameState" where
  "handleCellClick s i =
     (if isProcessing s then s
      else if i < 0 \<or> cellAt (board s) (nat i) \<noteq> Some Empty then s
      else if gameMode s = AI \<and> currentPlayer s = PlayerO then s
      else
        (case checkGameStatus (makeMove s (nat i)) of
           (True, s') \<Rightarrow> s'
         | (False, s') \<Rightarrow>
             if gameMode s' = AI \<and> currentPlayer s' = PlayerO
             then s'\<lparr>isProcessing := True\<rparr>
             else s'))"


section \<open>The AI (ai.js)\<close>

text \<open>
  Scores are JavaScript numbers: small integers, together with \<^verbatim>\<open>-Infinity\<close> and
  \<^verbatim>\<open>Infinity\<close>, which the search uses as initial bounds.
\<close>

datatype num = NegInf | Fin int | PosInf

instantiation num :: linorder
begin

fun less_eq_num :: "num \<Rightarrow> num \<Rightarrow> bool" where
  "less_eq_num NegInf y = True"
| "less_eq_num (Fin a) NegInf = False"
| "less_eq_num (Fin a) (Fin b) = (a \<le> b)"
| "less_eq_num (Fin a) PosInf = True"
| "less_eq_num PosInf PosInf = True"
| "less_eq_num PosInf y = False"

definition less_num :: "num \<Rightarrow> num \<Rightarrow> bool" where
  "less_num x y = (x \<le> y \<and> \<not> y \<le> (x::num))"

instance
proof
  fix x y z :: num
  show "(x < y) = (x \<le> y \<and> \<not> y \<le> x)" by (simp add: less_num_def)
  show "x \<le> x" by (cases x) auto
  show "x \<le> y \<Longrightarrow> y \<le> z \<Longrightarrow> x \<le> z" by (cases x; cases y; cases z) auto
  show "x \<le> y \<Longrightarrow> y \<le> x \<Longrightarrow> x = y" by (cases x; cases y) auto
  show "x \<le> y \<or> y \<le> x" by (cases x; cases y) auto
qed

end

text \<open>The class \<^verbatim>\<open>TicTacToeAI\<close> with its two fields.\<close>

record TicTacToeAI =
  aiPlayer :: player
  humanPlayer :: player

text \<open>
  \<^verbatim>\<open>checkWinner(board)\<close> returns the winner's mark, the string \<^verbatim>\<open>'draw'\<close> when
  every cell is marked, or \<^verbatim>\<open>null\<close> (\<open>None\<close>).
\<close>

datatype result = Winner player | Draw

definition checkWinner :: "board \<Rightarrow> result option" where
  "checkWinner b =
     (case scanPatterns b winPatterns of
        Some (p, pat) \<Rightarrow> Some (Winner p)
      | None \<Rightarrow> if list_all (\<lambda>c. c \<noteq> Empty) b then Some Draw else None)"

text \<open>
  \<^verbatim>\<open>minimax(board, depth, isMaximizing, alpha, beta)\<close>.  The board is one shared array
  that the search writes to and restores, so every function takes the board and returns it
  with its result.  \<open>maxLoop\<close> and \<open>minLoop\<close> are the two \<^verbatim>\<open>for\<close> loops, entered at
  index \<open>i\<close> with the running score and bound; \<^verbatim>\<open>break\<close> returns the running score.
\<close>

function minimax :: "TicTacToeAI \<Rightarrow> board \<Rightarrow> int \<Rightarrow> bool \<Rightarrow> num \<Rightarrow> num \<Rightarrow> num \<times> board"
  and maxLoop :: "TicTacToeAI \<Rightarrow> board \<Rightarrow> int \<Rightarrow> nat \<Rightarrow> num \<Rightarrow> num \<Rightarrow> num \<Rightarrow> num \<times> board"
  and minLoop :: "TicTacToeAI \<Rightarrow> board \<Rightarrow> int \<Rightarrow> nat \<Rightarrow> num \<Rightarrow> num \<Rightarrow> num \<Rightarrow> num \<times> board"
where
  "minimax ai b depth isMaximizing alpha beta =
     (case checkWinner b of
        Some r \<Rightarrow>
          if r = Winner (aiPlayer ai) then (Fin (10 - depth), b)
          else if r = Winner (humanPlayer ai) then (Fin (depth - 10), b)
          else (Fin 0, b)
      | None \<Rightarrow>
          if isMaximizing then maxLoop ai b depth 0 NegInf alpha beta
          else minLoop ai b depth 0 PosInf alpha beta)"
| "maxLoop ai b depth i maxScore alpha beta =
     (if i < 9 then
        (if cellAt b i = Some Empty then
           (case minimax ai (b[i := Mark (aiPlayer ai)]) (depth + 1) False alpha beta of
              (score, b1) \<Rightarrow>
                if beta \<le> max alpha score
                then (max score maxScore, b1[i := Empty])
                else maxLoop ai (b1[i := Empty]) depth (i + 1)
                       (max score maxScore) (max alpha score) beta)
         else maxLoop ai b depth (i + 1) maxScore alpha beta)
      else (maxScore, b))"
| "minLoop ai b depth i minScore alpha beta =
     (if i < 9 then
        (if cellAt b i = Some Empty then
           (case minimax ai (b[i := Mark (humanPlayer ai)]) (depth + 1) True alpha beta of
              (score, b1) \<Rightarrow>
                if min beta score \<le> alpha
                then (min score minScore, b1[i := Empty])
                else minLoop ai (b1[i := Empty]) depth (i + 1)
                       (min score minScore) alpha (min beta score))
         else minLoop ai b depth (i + 1) minScore alpha beta)
      else (minScore, b))"
  by pat_completeness auto

text \<open>
  The recursion terminates because each nested call sees one empty cell fewer; that the
  loop continues on the board it started with needs the inner call to have restored it.
\<close>

definition empties :: "board \<Rightarrow> nat" where
  "empties b = length (filter (\<lambda>c. c = Empty) b)"

lemma cellAt_EmptyD: "cellAt b i = Some Empty \<Longrightarrow> i < length b \<and> b ! i = Empty"
  by (auto simp: cellAt_def split: if_splits)

lemma place_undo: "cellAt b i = Some Empty \<Longrightarrow> (b[i := c])[i := Empty] = b"
  by (auto dest!: cellAt_EmptyD simp: list_update_same_conv)

lemma split_at_Empty:
  assumes "cellAt b i = Some Empty"
  shows "b = take i b @ Empty # drop (Suc i) b"
    and "b[i := c] = take i b @ c # drop (Suc i) b"
proof -
  from assms have i: "i < length b" and e: "b ! i = Empty" by (auto dest: cellAt_EmptyD)
  show "b = take i b @ Empty # drop (Suc i) b"
    using i e by (metis id_take_nth_drop)
  show "b[i := c] = take i b @ c # drop (Suc i) b"
    using i by (simp add: upd_conv_take_nth_drop)
qed

lemma empties_place:
  assumes "cellAt b i = Some Empty"
  shows "Suc (empties (b[i := Mark p])) = empties b"
proof -
  have "Suc (empties (take i b @ Mark p # drop (Suc i) b))
        = empties (take i b @ Empty # drop (Suc i) b)"
    by (simp add: empties_def)
  with split_at_Empty[OF assms] show ?thesis by metis
qed

lemma frame_dom:
  "minimax_maxLoop_minLoop_dom (Inl (ai, b, depth, isMaximizing, alpha, beta)) \<Longrightarrow>
     snd (minimax ai b depth isMaximizing alpha beta) = b"
  "minimax_maxLoop_minLoop_dom (Inr (Inl (ai, b, depth, i, maxScore, alpha, beta))) \<Longrightarrow>
     snd (maxLoop ai b depth i maxScore alpha beta) = b"
  "minimax_maxLoop_minLoop_dom (Inr (Inr (ai, b, depth, i, minScore, alpha, beta))) \<Longrightarrow>
     snd (minLoop ai b depth i minScore alpha beta) = b"
proof (induct rule: minimax_maxLoop_minLoop.pinduct)
  case (1 ai b depth isMaximizing alpha beta)
  then show ?case
    by (auto simp: minimax.psimps split: option.splits)
next
  case (2 ai b depth i maxScore alpha beta)
  show ?case
  proof (cases "i < 9 \<and> cellAt b i = Some Empty")
    case False
    with 2 show ?thesis by (auto simp: maxLoop.psimps)
  next
    case True
    obtain x y where xy:
      "minimax ai (b[i := Mark (aiPlayer ai)]) (depth + 1) False alpha beta = (x, y)"
      by (cases "minimax ai (b[i := Mark (aiPlayer ai)]) (depth + 1) False alpha beta")
    with 2(2) True have y: "y = b[i := Mark (aiPlayer ai)]" by simp
    with True have yb: "y[i := Empty] = b" using place_undo[of b i] by simp
    show ?thesis
    proof (cases "beta \<le> max alpha x")
      case True
      with \<open>i < 9 \<and> cellAt b i = Some Empty\<close> xy yb 2(1) show ?thesis
        by (simp add: maxLoop.psimps)
    next
      case False
      with 2(3)[of x y] \<open>i < 9 \<and> cellAt b i = Some Empty\<close> xy yb 2(1) show ?thesis
        by (simp add: maxLoop.psimps)
    qed
  qed
next
  case (3 ai b depth i minScore alpha beta)
  show ?case
  proof (cases "i < 9 \<and> cellAt b i = Some Empty")
    case False
    with 3 show ?thesis by (auto simp: minLoop.psimps)
  next
    case True
    obtain x y where xy:
      "minimax ai (b[i := Mark (humanPlayer ai)]) (depth + 1) True alpha beta = (x, y)"
      by (cases "minimax ai (b[i := Mark (humanPlayer ai)]) (depth + 1) True alpha beta")
    with 3(2) True have y: "y = b[i := Mark (humanPlayer ai)]" by simp
    with True have yb: "y[i := Empty] = b" using place_undo[of b i] by simp
    show ?thesis
    proof (cases "min beta x \<le> alpha")
      case True
      with \<open>i < 9 \<and> cellAt b i = Some Empty\<close> xy yb 3(1) show ?thesis
        by (simp add: minLoop.psimps)
    next
      case False
      with 3(3)[of x y] \<open>i < 9 \<and> cellAt b i = Some Empty\<close> xy yb 3(1) show ?thesis
        by (simp add: minLoop.psimps)
    qed
  qed
qed

lemma term_inner:
  assumes "i < 9" and "cellAt b i = Some Empty"
  shows "empties (b[i := Mark p]) * 11 + 10 < empties b * 11 + 9 - i"
  using assms(1) empties_place[OF assms(2), of p] by simp

lemma term_next:
  assumes "(x, y) = minimax ai (b[i := Mark p]) d m alpha beta"
    and "minimax_maxLoop_minLoop_dom (Inl (ai, b[i := Mark p], d, m, alpha, beta))"
    and "cellAt b i = Some Empty"
  shows "empties (y[i := Empty]) = empties b"
proof -
  from frame_dom(1)[OF assms(2)] assms(1) have "y = b[i := Mark p]"
    by (metis snd_conv)
  with place_undo[OF assms(3), of "Mark p"] show ?thesis by simp
qed

termination minimax
  apply (relation "measure (\<lambda>x. case x of
          Inl (ai, b, depth, isMaximizing, alpha, beta) \<Rightarrow> empties b * 11 + 10
        | Inr (Inl (ai, b, depth, i, maxScore, alpha, beta)) \<Rightarrow> empties b * 11 + (9 - i)
        | Inr (Inr (ai, b, depth, i, minScore, alpha, beta)) \<Rightarrow> empties b * 11 + (9 - i))")
  apply (simp_all add: term_inner)
  apply (auto dest: term_next)
  done

declare minimax.simps [simp del] maxLoop.simps [simp del] minLoop.simps [simp del]

text \<open>
  \<^verbatim>\<open>getBestMove(board)\<close>: the loop over the nine cells, entered at index \<open>i\<close> with the
  best score and move so far.  The move is a JavaScript number, \<open>-1\<close> when no cell was
  chosen.
\<close>

function bestLoop :: "TicTacToeAI \<Rightarrow> board \<Rightarrow> nat \<Rightarrow> num \<Rightarrow> int \<Rightarrow> int \<times> board" where
  "bestLoop ai b i bestScore bestMove =
     (if i < 9 then
        (if cellAt b i = Some Empty then
           (case minimax ai (b[i := Mark (aiPlayer ai)]) 0 False NegInf PosInf of
              (score, b1) \<Rightarrow>
                if score > bestScore
                then bestLoop ai (b1[i := Empty]) (i + 1) score (int i)
                else bestLoop ai (b1[i := Empty]) (i + 1) bestScore bestMove)
         else bestLoop ai b (i + 1) bestScore bestMove)
      else (bestMove, b))"
  by pat_completeness auto
termination
  by (relation "measure (\<lambda>(ai, b, i, bestScore, bestMove). 9 - i)") auto

declare bestLoop.simps [simp del]

definition getBestMove :: "TicTacToeAI \<Rightarrow> board \<Rightarrow> int \<times> board" where
  "getBestMove ai b = bestLoop ai b 0 NegInf (- 1)"

text \<open>
  \<^verbatim>\<open>getRandomMove(board)\<close>.  \<open>k\<close> stands for the value of
  \<^verbatim>\<open>Math.floor(Math.random() * emptyCells.length)\<close>, the only use the function makes of the
  random source.  Indexing the array past its end (in particular when it is empty) yields
  \<^verbatim>\<open>undefined\<close>, which is \<open>None\<close>.
\<close>

definition emptyCells :: "board \<Rightarrow> nat list" where
  "emptyCells b = filter (\<lambda>i. cellAt b i = Some Empty) [0..<9]"

definition getRandomMove :: "board \<Rightarrow> nat \<Rightarrow> nat option" where
  "getRandomMove b k =
     (if k < length (emptyCells b) then Some (emptyCells b ! k) else None)"

text \<open>
  \<^verbatim>\<open>getMediumMove(board)\<close>: two scans that place a mark, test \<^verbatim>\<open>checkWinner\<close> and take
  the mark back, then the random move.  A scan yields \<open>Some i\<close> when it returned from
  inside the loop.
\<close>

function winScan :: "TicTacToeAI \<Rightarrow> board \<Rightarrow> nat \<Rightarrow> nat option \<times> board" where
  "winScan ai b i =
     (if i < 9 then
        (if cellAt b i = Some Empty then
           (if checkWinner (b[i := Mark (aiPlayer ai)]) = Some (Winner (aiPlayer ai))
            then (Some i, (b[i := Mark (aiPlayer ai)])[i := Empty])
            else winScan ai ((b[i := Mark (aiPlayer ai)])[i := Empty]) (i + 1))
         else winScan ai b (i + 1))
      else (None, b))"
  by pat_completeness auto
termination
  by (relation "measure (\<lambda>(ai, b, i). 9 - i)") auto

function blockScan :: "TicTacToeAI \<Rightarrow> board \<Rightarrow> nat \<Rightarrow> nat option \<times> board" where
  "blockScan ai b i =
     (if i < 9 then
        (if cellAt b i = Some Empty then
           (if checkWinner (b[i := Mark (humanPlayer ai)]) = Some (Winner (humanPlayer ai))
            then (Some i, (b[i := Mark (humanPlayer ai)])[i := Empty])
            else blockScan ai ((b[i := Mark (humanPlayer ai)])[i := Empty]) (i + 1))
         else blockScan ai b (i + 1))
      else (None, b))"
  by pat_completeness auto
termination
  by (relation "measure (\<lambda>(ai, b, i). 9 - i)") auto

declare winScan.simps [simp del] blockScan.simps [simp del]

definition getMediumMove :: "TicTacToeAI \<Rightarrow> board \<Rightarrow> nat \<Rightarrow> nat option \<times> board" where
  "getMediumMove ai b k =
     (case winScan ai b 0 of
        (Some i, b1) \<Rightarrow> (Some i, b1)
      | (None, b1) \<Rightarrow>
          (case blockScan ai b1 0 of
             (Some i, b2) \<Rightarrow> (Some i, b2)
           | (None, b2) \<Rightarrow> (getRandomMove b2 k, b2)))"

text \<open>
  The game's AI instance, \<^verbatim>\<open>new TicTacToeAI('O', 'X')\<close>, and the callback that
  \<^verbatim>\<open>handleCellClick\<close> schedules for the AI's turn.
\<close>

definition gameAI :: TicTacToeAI where
  "gameAI = \<lparr>aiPlayer = PlayerO, humanPlayer = PlayerX\<rparr>"

definition aiTurn :: "gameState \<Rightarrow> gameState" where
  "aiTurn s =
     (case getBestMove gameAI (board s) of
        (aiMove, b1) \<Rightarrow>
          (let s1 = s\<lparr>board := b1\<rparr>;
               s2 = (if aiMove \<noteq> - 1 \<and> cellAt (board s1) (nat aiMove) = Some Empty
                     then snd (checkGameStatus (makeMove s1 (nat aiMove)))
                     else s1)
           in s2\<lparr>isProcessing := False\<rparr>))"


section \<open>Outcome check: properties\<close>

definition lineComplete :: "board \<Rightarrow> pattern \<Rightarrow> bool" where
  "lineComplete b pat =
     (case pat of (a, b', c) \<Rightarrow>
        (\<exists>p. cellAt b a = Some (Mark p) \<and> cellAt b b' = Some (Mark p)
             \<and> cellAt b c = Some (Mark p)))"

definition drawnBoard :: board where
  "drawnBoard =
     [Mark PlayerX, Mark PlayerO, Mark PlayerX,
      Mark PlayerX, Mark PlayerO, Mark PlayerO,
      Mark PlayerO, Mark PlayerX, Mark PlayerX]"

lemma scanPatterns_None_iff:
  "scanPatterns b ps = None \<longleftrightarrow> (\<forall>pat \<in> set ps. \<not> lineComplete b pat)"
proof (induction ps)
  case Nil
  show ?case by simp
next
  case (Cons pat ps)
  obtain a b' c where pat: "pat = (a, b', c)" by (cases pat)
  show ?case
  proof (cases "cellAt b a")
    case None
    with Cons pat show ?thesis by (simp add: lineComplete_def)
  next
    case (Some x)
    with Cons pat show ?thesis
      by (cases x) (auto simp: lineComplete_def)
  qed
qed

lemma cellAt_drawnBoard:
  "cellAt drawnBoard 0 = Some (Mark PlayerX)" "cellAt drawnBoard (Suc 0) = Some (Mark PlayerO)"
  "cellAt drawnBoard 2 = Some (Mark PlayerX)" "cellAt drawnBoard 3 = Some (Mark PlayerX)"
  "cellAt drawnBoard 4 = Some (Mark PlayerO)" "cellAt drawnBoard 5 = Some (Mark PlayerO)"
  "cellAt drawnBoard 6 = Some (Mark PlayerO)" "cellAt drawnBoard 7 = Some (Mark PlayerX)"
  "cellAt drawnBoard 8 = Some (Mark PlayerX)"
  by (simp_all add: cellAt_def drawnBoard_def)

lemma scanPatterns_drawnBoard: "scanPatterns drawnBoard winPatterns = None"
  by (simp add: winPatterns_def cellAt_drawnBoard)

text \<open>
  Claim C3 as stated fails: on a board whose nine cells are all marked and on which no line
  is completed, \<^verbatim>\<open>checkGameStatus\<close> does not report a draw.  It returns \<^verbatim>\<open>false\<close>
  (game continues), exactly as it does on the empty board, and leaves the state, the draw
  counter included, untouched.
\<close>

theorem checkGameStatus_full_board_counterexample:
  "Empty \<notin> set drawnBoard
   \<and> checkGameStatus (initialState\<lparr>board := drawnBoard\<rparr>)
       = (False, initialState\<lparr>board := drawnBoard\<rparr>)
   \<and> fst (checkGameStatus (initialState\<lparr>board := drawnBoard\<rparr>))
       = fst (checkGameStatus initialState)"
proof -
  have "Empty \<notin> set drawnBoard" by (simp add: drawnBoard_def)
  moreover have "scanPatterns emptyBoard winPatterns = None"
    by (simp add: winPatterns_def cellAt_def emptyBoard_def)
  ultimately show ?thesis
    by (simp add: checkGameStatus_def scanPatterns_drawnBoard initialState_def)
qed

text \<open>
  Claim C3, amended: for every board on which no winning line is completed, whether or not
  all nine cells are marked, \<^verbatim>\<open>checkGameStatus\<close> returns \<^verbatim>\<open>false\<close> (game in progress)
  and changes nothing; the engine has no draw outcome.
\<close>

theorem checkGameStatus_no_line_in_progress:
  assumes "\<forall>pat \<in> set winPatterns. \<not> lineComplete (board s) pat"
  shows "checkGameStatus s = (False, s)"
proof -
  from assms have "scanPatterns (board s) winPatterns = None"
    by (simp add: scanPatterns_None_iff)
  then show ?thesis by (simp add: checkGameStatus_def)
qed

theorem checkGameStatus_no_line_in_progress_witness:
  "list_all (\<lambda>pat. \<not> lineComplete drawnBoard pat) winPatterns
   \<and> checkGameStatus (initialState\<lparr>board := drawnBoard\<rparr>)
       = (False, initialState\<lparr>board := drawnBoard\<rparr>)"
proof -
  have h: "\<forall>pat \<in> set winPatterns. \<not> lineComplete (board (initialState\<lparr>board := drawnBoard\<rparr>)) pat"
    using scanPatterns_drawnBoard by (simp add: scanPatterns_None_iff)
  from checkGameStatus_no_line_in_progress [OF h] h show ?thesis
    by (simp add: list_all_iff)
qed


section \<open>Applying moves: properties\<close>

definition occupied :: "board \<Rightarrow> nat" where
  "occupied b = length (filter (\<lambda>c. c \<noteq> Empty) b)"

text \<open>What the engine maintains: nine cells, one history record per marked cell.\<close>

definition engineInv :: "gameState \<Rightarrow> bool" where
  "engineInv s \<longleftrightarrow> length (board s) = 9 \<and> occupied (board s) = length (moveHistory s)"

definition twoPlayerStart :: gameState where
  "twoPlayerStart = setGameMode initialState TwoPlayer"

definition afterFirstMove :: gameState where
  "afterFirstMove = handleCellClick twoPlayerStart 0"

definition nineMoves :: "int list" where
  "nineMoves = [0, 1, 2, 4, 3, 5, 7, 6, 8]"

definition afterNineMoves :: gameState where
  "afterNineMoves = foldl handleCellClick twoPlayerStart nineMoves"

lemma occupied_place:
  assumes "cellAt b i = Some Empty"
  shows "occupied (b[i := Mark p]) = Suc (occupied b)"
proof -
  have "occupied (take i b @ Mark p # drop (Suc i) b)
        = Suc (occupied (take i b @ Empty # drop (Suc i) b))"
    by (simp add: occupied_def)
  with split_at_Empty[OF assms] show ?thesis by metis
qed

lemma occupied_full:
  assumes "occupied b = length b"
  shows "cellAt b i \<noteq> Some Empty"
proof
  assume "cellAt b i = Some Empty"
  then have "Empty \<in> set b" by (metis cellAt_EmptyD nth_mem)
  then have "length (filter (\<lambda>c. c \<noteq> Empty) b) < length b"
    by (rule length_filter_less) simp
  with assms show False by (simp add: occupied_def)
qed

lemma occupied_le: "occupied b \<le> length b"
  by (simp add: occupied_def)

text \<open>
  Under the engine invariant a cell can only be read as empty while fewer than nine moves
  are recorded, so the eviction branch of \<^verbatim>\<open>makeMove\<close> is never entered from a call
  site that has checked the target cell.
\<close>

lemma evictOldest_unreached:
  assumes "engineInv s" and "cellAt (board s) i = Some Empty"
  shows "evictOldest s = s"
proof -
  have "length (moveHistory s) \<noteq> 9"
  proof
    assume "length (moveHistory s) = 9"
    with assms(1) have "occupied (board s) = length (board s)" by (simp add: engineInv_def)
    from occupied_full[OF this] assms(2) show False by blast
  qed
  moreover have "length (moveHistory s) \<le> 9"
    using assms(1) occupied_le[of "board s"] by (simp add: engineInv_def)
  ultimately show ?thesis by (simp add: evictOldest_def maxMoves_def)
qed

lemma makeMove_engineInv:
  assumes "engineInv s" and "cellAt (board s) i = Some Empty"
  shows "engineInv (makeMove s i)"
    and "length (moveHistory (makeMove s i)) = Suc (length (moveHistory s))"
  using assms evictOldest_unreached[OF assms] occupied_place[OF assms(2)]
  by (simp_all add: makeMove_def Let_def engineInv_def)

lemma checkGameStatus_board:
  "board (snd (checkGameStatus s)) = board s"
  "moveHistory (snd (checkGameStatus s)) = moveHistory s"
  by (auto simp: checkGameStatus_def handleWin_def Let_def split: option.splits)

lemma checkGameStatus_engineInv: "engineInv s \<Longrightarrow> engineInv (snd (checkGameStatus s))"
  by (simp add: engineInv_def checkGameStatus_board)

lemma handleCellClick_cases:
  "handleCellClick s i = s
   \<or> (0 \<le> i \<and> cellAt (board s) (nat i) = Some Empty
      \<and> (handleCellClick s i = snd (checkGameStatus (makeMove s (nat i)))
         \<or> handleCellClick s i = (snd (checkGameStatus (makeMove s (nat i))))\<lparr>isProcessing := True\<rparr>))"
  by (cases "checkGameStatus (makeMove s (nat i))")
     (auto simp: handleCellClick_def split: bool.splits)

lemma handleCellClick_engineInv:
  assumes "engineInv s"
  shows "engineInv (handleCellClick s i)"
proof -
  have *: "engineInv (snd (checkGameStatus (makeMove s (nat i))))"
    if "cellAt (board s) (nat i) = Some Empty"
    using makeMove_engineInv(1)[OF assms that] by (rule checkGameStatus_engineInv)
  from handleCellClick_cases[of s i] show ?thesis
    using assms * by (auto simp: engineInv_def)
qed

lemma engineInv_resetGame: "engineInv (resetGame s)"
  by (simp add: engineInv_def resetGame_def emptyBoard_def occupied_def)

text \<open>
  The part of claim C2 that holds of every run: from the reset state, after any sequence of
  clicks the number of marked cells equals the number of recorded moves, which is at most 9.
\<close>

lemma clicks_keep_count:
  "occupied (board (foldl handleCellClick (resetGame s) is))
     = length (moveHistory (foldl handleCellClick (resetGame s) is))
   \<and> length (moveHistory (foldl handleCellClick (resetGame s) is)) \<le> 9"
proof -
  have "engineInv (foldl handleCellClick s' is)" if "engineInv s'" for s'
    using that by (induction "is" arbitrary: s') (simp_all add: handleCellClick_engineInv)
  from this[OF engineInv_resetGame, of s] show ?thesis
    using occupied_le[of "board (foldl handleCellClick (resetGame s) is)"]
    by (simp add: engineInv_def)
qed

text \<open>
  Once nine moves are recorded the board is full, and the click handler, which tests the
  target cell before \<^verbatim>\<open>makeMove\<close> could evict anything, rejects every further click.
\<close>

lemma full_history_blocks_clicks:
  assumes "engineInv s" and "length (moveHistory s) = 9"
  shows "handleCellClick s i = s"
proof -
  from assms have "occupied (board s) = length (board s)" by (simp add: engineInv_def)
  from occupied_full[OF this] show ?thesis by (simp add: handleCellClick_def)
qed

text \<open>
  Were \<^verbatim>\<open>makeMove\<close> entered with nine recorded moves, past the test of its callers, it
  would evict the first move.  Aimed at any other cell, it then overwrites a mark and
  leaves eight cells marked; aimed at the evicted cell, it marks that cell again.
\<close>

lemma makeMove_past_the_guard:
  "occupied (board (makeMove afterNineMoves 4)) = 8
   \<and> cellAt (board (makeMove afterNineMoves 4)) 0 = Some Empty
   \<and> map index (moveHistory (makeMove afterNineMoves 4)) = [1, 2, 4, 3, 5, 7, 6, 8, 4]
   \<and> occupied (board (makeMove afterNineMoves 0)) = 9
   \<and> cellAt (board (makeMove afterNineMoves 0)) 0 = Some (Mark PlayerO)
   \<and> map index (moveHistory (makeMove afterNineMoves 0)) = [1, 2, 4, 3, 5, 7, 6, 8, 0]"
  by code_simp

text \<open>
  Claim C2 at its own scenario.  In two-player mode, from the reset state, the nine clicks
  0, 1, 2, 4, 3, 5, 7, 6, 8 are all accepted and complete no line.  Nine moves are then
  recorded, the first of them on cell 0, and the board is full.  A tenth click, on any of
  the nine cells, is rejected by the emptiness test of \<^verbatim>\<open>handleCellClick\<close>: the state
  stays as it is, nothing is evicted, cell 0 keeps its mark and the head of the history is
  still the first move.  The claim expects the tenth move to evict the first.
\<close>

theorem tenth_click_rejected_after_nine_moves:
  "map index (moveHistory afterNineMoves) = [0, 1, 2, 4, 3, 5, 7, 6, 8]
   \<and> board afterNineMoves = drawnBoard
   \<and> map (handleCellClick afterNineMoves) [0, 1, 2, 3, 4, 5, 6, 7, 8]
       = replicate 9 afterNineMoves
   \<and> cellAt (board (handleCellClick afterNineMoves 0)) 0 = Some (Mark PlayerX)
   \<and> map index (moveHistory (handleCellClick afterNineMoves 0)) = [0, 1, 2, 4, 3, 5, 7, 6, 8]"
  by code_simp

text \<open>
  Claim C4 as stated fails: a click on an occupied cell, or with an index outside 0-8, is
  not signalled to anybody.  The handler has no \<^verbatim>\<open>throw\<close>; it takes the early
  \<^verbatim>\<open>return\<close>, whose value is the same \<^verbatim>\<open>undefined\<close> a successful click returns, and
  the whole game state is what it was: the click is silently ignored.
\<close>

theorem handleCellClick_invalid_click_counterexample:
  "cellAt (board afterFirstMove) 0 = Some (Mark PlayerX)
   \<and> handleCellClick afterFirstMove 0 = afterFirstMove
   \<and> handleCellClick afterFirstMove 9 = afterFirstMove
   \<and> handleCellClick afterFirstMove (- 1) = afterFirstMove"
  by code_simp

text \<open>
  Claim C4, amended: for every click whose index is outside the board or whose target cell
  is not empty, \<^verbatim>\<open>handleCellClick\<close> returns normally without signalling anything, and
  the board, the move history and the rest of the game state are unchanged (the click is
  silently ignored).
\<close>

theorem handleCellClick_invalid_click_ignored:
  assumes "i < 0 \<or> cellAt (board s) (nat i) \<noteq> Some Empty"
  shows "handleCellClick s i = s"
  using assms by (auto simp: handleCellClick_def)

theorem handleCellClick_invalid_click_ignored_witness:
  "cellAt (board afterNineMoves) (nat 4) = Some (Mark PlayerO)
   \<and> handleCellClick afterNineMoves 4 = afterNineMoves
   \<and> handleCellClick initialState 12 = initialState"
proof -
  have c: "cellAt (board afterNineMoves) (nat 4) = Some (Mark PlayerO)"
    by code_simp
  have d: "cellAt (board initialState) (nat 12) = None"
    by code_simp
  from c have "handleCellClick afterNineMoves 4 = afterNineMoves"
    by (intro handleCellClick_invalid_click_ignored) simp
  moreover from d have "handleCellClick initialState 12 = initialState"
    by (intro handleCellClick_invalid_click_ignored) simp
  ultimately show ?thesis using c by simp
qed

section \<open>The searches restore the board\<close>

lemma minimax_frame:
  "snd (minimax ai b depth isMaximizing alpha beta) = b"
  "snd (maxLoop ai b depth i maxScore alpha beta) = b"
  "snd (minLoop ai b depth i minScore alpha beta) = b"
proof (induct ai b depth isMaximizing alpha beta and ai b depth i maxScore alpha beta
       and ai b depth i minScore alpha beta rule: minimax_maxLoop_minLoop.induct)
  case (1 ai b depth isMaximizing alpha beta)
  then show ?case
    by (auto simp: minimax.simps split: option.splits)
next
  case (2 ai b depth i maxScore alpha beta)
  show ?case
  proof (cases "i < 9 \<and> cellAt b i = Some Empty")
    case False
    with 2 show ?thesis by (auto simp: maxLoop.simps[of ai b depth i])
  next
    case True
    obtain x y where xy:
      "minimax ai (b[i := Mark (aiPlayer ai)]) (depth + 1) False alpha beta = (x, y)"
      by (cases "minimax ai (b[i := Mark (aiPlayer ai)]) (depth + 1) False alpha beta")
    with 2(1) True have y: "y = b[i := Mark (aiPlayer ai)]" by simp
    with True have yb: "y[i := Empty] = b" using place_undo[of b i] by simp
    show ?thesis
    proof (cases "beta \<le> max alpha x")
      case True
      with \<open>i < 9 \<and> cellAt b i = Some Empty\<close> xy yb show ?thesis
        by (simp add: maxLoop.simps[of ai b depth i])
    next
      case False
      with 2(2)[of x y] \<open>i < 9 \<and> cellAt b i = Some Empty\<close> xy yb show ?thesis
        by (simp add: maxLoop.simps[of ai b depth i])
    qed
  qed
next
  case (3 ai b depth i minScore alpha beta)
  show ?case
  proof (cases "i < 9 \<and> cellAt b i = Some Empty")
    case False
    with 3 show ?thesis by (auto simp: minLoop.simps[of ai b depth i])
  next
    case True
    obtain x y where xy:
      "minimax ai (b[i := Mark (humanPlayer ai)]) (depth + 1) True alpha beta = (x, y)"
      by (cases "minimax ai (b[i := Mark (humanPlayer ai)]) (depth + 1) True alpha beta")
    with 3(1) True have y: "y = b[i := Mark (humanPlayer ai)]" by simp
    with True have yb: "y[i := Empty] = b" using place_undo[of b i] by simp
    show ?thesis
    proof (cases "min beta x \<le> alpha")
      case True
      with \<open>i < 9 \<and> cellAt b i = Some Empty\<close> xy yb show ?thesis
        by (simp add: minLoop.simps[of ai b depth i])
    next
      case False
      with 3(2)[of x y] \<open>i < 9 \<and> cellAt b i = Some Empty\<close> xy yb show ?thesis
        by (simp add: minLoop.simps[of ai b depth i])
    qed
  qed
qed

lemma minimax_pair: "minimax ai b d m alpha beta = (fst (minimax ai b d m alpha beta), b)"
  by (metis minimax_frame(1) prod.collapse)

text \<open>With the board restored, the scores alone obey the equations of the source.\<close>

lemma maxLoop_score:
  "fst (maxLoop ai b d i ms alpha beta) =
     (if i < 9 then
        (if cellAt b i = Some Empty then
           (if beta \<le> max alpha (fst (minimax ai (b[i := Mark (aiPlayer ai)]) (d + 1) False alpha beta))
            then max (fst (minimax ai (b[i := Mark (aiPlayer ai)]) (d + 1) False alpha beta)) ms
            else fst (maxLoop ai b d (i + 1)
                   (max (fst (minimax ai (b[i := Mark (aiPlayer ai)]) (d + 1) False alpha beta)) ms)
                   (max alpha (fst (minimax ai (b[i := Mark (aiPlayer ai)]) (d + 1) False alpha beta)))
                   beta))
         else fst (maxLoop ai b d (i + 1) ms alpha beta))
      else ms)"
proof (cases "i < 9 \<and> cellAt b i = Some Empty")
  case False
  then show ?thesis by (auto simp: maxLoop.simps[of ai b d i])
next
  case True
  then have u: "(b[i := Mark (aiPlayer ai)])[i := Empty] = b"
    using place_undo[of b i] by simp
  show ?thesis
    using True u
    by (subst maxLoop.simps, subst minimax_pair) (simp del: list_update_overwrite)
qed

lemma minLoop_score:
  "fst (minLoop ai b d i ms alpha beta) =
     (if i < 9 then
        (if cellAt b i = Some Empty then
           (if min beta (fst (minimax ai (b[i := Mark (humanPlayer ai)]) (d + 1) True alpha beta)) \<le> alpha
            then min (fst (minimax ai (b[i := Mark (humanPlayer ai)]) (d + 1) True alpha beta)) ms
            else fst (minLoop ai b d (i + 1)
                   (min (fst (minimax ai (b[i := Mark (humanPlayer ai)]) (d + 1) True alpha beta)) ms)
                   alpha
                   (min beta (fst (minimax ai (b[i := Mark (humanPlayer ai)]) (d + 1) True alpha beta)))))
         else fst (minLoop ai b d (i + 1) ms alpha beta))
      else ms)"
proof (cases "i < 9 \<and> cellAt b i = Some Empty")
  case False
  then show ?thesis by (auto simp: minLoop.simps[of ai b d i])
next
  case True
  then have u: "(b[i := Mark (humanPlayer ai)])[i := Empty] = b"
    using place_undo[of b i] by simp
  show ?thesis
    using True u
    by (subst minLoop.simps, subst minimax_pair) (simp del: list_update_overwrite)
qed

lemma minimax_score:
  "fst (minimax ai b d m alpha beta) =
     (case checkWinner b of
        Some r \<Rightarrow>
          if r = Winner (aiPlayer ai) then Fin (10 - d)
          else if r = Winner (humanPlayer ai) then Fin (d - 10)
          else Fin 0
      | None \<Rightarrow>
          if m then fst (maxLoop ai b d 0 NegInf alpha beta)
          else fst (minLoop ai b d 0 PosInf alpha beta))"
  by (simp add: minimax.simps split: option.splits)

text \<open>Computation induction along the search, with the board already restored.\<close>

lemma search_induct [case_names node maxLoop minLoop]:
  assumes node: "\<And>ai b d m alpha beta.
      (checkWinner b = None \<Longrightarrow> m \<Longrightarrow> Q ai b d 0 NegInf alpha beta) \<Longrightarrow>
      (checkWinner b = None \<Longrightarrow> \<not> m \<Longrightarrow> R ai b d 0 PosInf alpha beta) \<Longrightarrow>
      P ai b d m alpha beta"
    and maxl: "\<And>ai b d i ms alpha beta.
      (i < 9 \<Longrightarrow> cellAt b i = Some Empty \<Longrightarrow>
         P ai (b[i := Mark (aiPlayer ai)]) (d + 1) False alpha beta) \<Longrightarrow>
      (i < 9 \<Longrightarrow> cellAt b i = Some Empty \<Longrightarrow>
         \<not> beta \<le> max alpha (fst (minimax ai (b[i := Mark (aiPlayer ai)]) (d + 1) False alpha beta)) \<Longrightarrow>
         Q ai b d (i + 1)
           (max (fst (minimax ai (b[i := Mark (aiPlayer ai)]) (d + 1) False alpha beta)) ms)
           (max alpha (fst (minimax ai (b[i := Mark (aiPlayer ai)]) (d + 1) False alpha beta)))
           beta) \<Longrightarrow>
      (i < 9 \<Longrightarrow> cellAt b i \<noteq> Some Empty \<Longrightarrow> Q ai b d (i + 1) ms alpha beta) \<Longrightarrow>
      Q ai b d i ms alpha beta"
    and minl: "\<And>ai b d i ms alpha beta.
      (i < 9 \<Longrightarrow> cellAt b i = Some Empty \<Longrightarrow>
         P ai (b[i := Mark (humanPlayer ai)]) (d + 1) True alpha beta) \<Longrightarrow>
      (i < 9 \<Longrightarrow> cellAt b i = Some Empty \<Longrightarrow>
         \<not> min beta (fst (minimax ai (b[i := Mark (humanPlayer ai)]) (d + 1) True alpha beta)) \<le> alpha \<Longrightarrow>
         R ai b d (i + 1)
           (min (fst (minimax ai (b[i := Mark (humanPlayer ai)]) (d + 1) True alpha beta)) ms)
           alpha
           (min beta (fst (minimax ai (b[i := Mark (humanPlayer ai)]) (d + 1) True alpha beta)))) \<Longrightarrow>
      (i < 9 \<Longrightarrow> cellAt b i \<noteq> Some Empty \<Longrightarrow> R ai b d (i + 1) ms alpha beta) \<Longrightarrow>
      R ai b d i ms alpha beta"
  shows "P ai b d m alpha beta"
    and "Q ai b d i ms alpha beta"
    and "R ai b d i ms alpha beta"
proof (induct ai b d m alpha beta and ai b d i ms alpha beta and ai b d i ms alpha beta
       rule: minimax_maxLoop_minLoop.induct)
  case (1 ai b depth isMaximizing alpha beta)
  then show ?case by (intro node) auto
next
  case (2 ai b depth i maxScore alpha beta)
  show ?case
  proof (rule maxl)
    assume h: "i < 9" "cellAt b i = Some Empty"
    then show "P ai (b[i := Mark (aiPlayer ai)]) (depth + 1) False alpha beta" by (rule 2(1))
    assume c: "\<not> beta \<le> max alpha (fst (minimax ai (b[i := Mark (aiPlayer ai)]) (depth + 1) False alpha beta))"
    have "Q ai ((b[i := Mark (aiPlayer ai)])[i := Empty]) depth (i + 1)
           (max (fst (minimax ai (b[i := Mark (aiPlayer ai)]) (depth + 1) False alpha beta)) maxScore)
           (max alpha (fst (minimax ai (b[i := Mark (aiPlayer ai)]) (depth + 1) False alpha beta)))
           beta"
      using h c by (intro 2(2)) (simp_all add: minimax_pair[symmetric])
    with place_undo[OF h(2)] show "Q ai b depth (i + 1)
           (max (fst (minimax ai (b[i := Mark (aiPlayer ai)]) (depth + 1) False alpha beta)) maxScore)
           (max alpha (fst (minimax ai (b[i := Mark (aiPlayer ai)]) (depth + 1) False alpha beta)))
           beta" by simp
  next
    assume "i < 9" "cellAt b i \<noteq> Some Empty"
    then show "Q ai b depth (i + 1) maxScore alpha beta" by (rule 2(3))
  qed
next
  case (3 ai b depth i minScore alpha beta)
  show ?case
  proof (rule minl)
    assume h: "i < 9" "cellAt b i = Some Empty"
    then show "P ai (b[i := Mark (humanPlayer ai)]) (depth + 1) True alpha beta" by (rule 3(1))
    assume c: "\<not> min beta (fst (minimax ai (b[i := Mark (humanPlayer ai)]) (depth + 1) True alpha beta)) \<le> alpha"
    have "R ai ((b[i := Mark (humanPlayer ai)])[i := Empty]) depth (i + 1)
           (min (fst (minimax ai (b[i := Mark (humanPlayer ai)]) (depth + 1) True alpha beta)) minScore)
           alpha
           (min beta (fst (minimax ai (b[i := Mark (humanPlayer ai)]) (depth + 1) True alpha beta)))"
      using h c by (intro 3(2)) (simp_all add: minimax_pair[symmetric])
    with place_undo[OF h(2)] show "R ai b depth (i + 1)
           (min (fst (minimax ai (b[i := Mark (humanPlayer ai)]) (depth + 1) True alpha beta)) minScore)
           alpha
           (min beta (fst (minimax ai (b[i := Mark (humanPlayer ai)]) (depth + 1) True alpha beta)))"
      by simp
  next
    assume "i < 9" "cellAt b i \<noteq> Some Empty"
    then show "R ai b depth (i + 1) minScore alpha beta" by (rule 3(3))
  qed
qed

section \<open>Scores are finite on nine-cell boards\<close>

definition isFin :: "num \<Rightarrow> bool" where
  "isFin x = (case x of Fin v \<Rightarrow> True | _ \<Rightarrow> False)"

lemma isFin_simps [simp]: "isFin (Fin v)" "\<not> isFin NegInf" "\<not> isFin PosInf"
  by (simp_all add: isFin_def)

lemma isFin_max: "isFin x \<Longrightarrow> isFin y \<or> y = NegInf \<Longrightarrow> isFin (max x y)"
  by (cases x; cases y) (auto simp: max_def)

lemma isFin_min: "isFin x \<Longrightarrow> isFin y \<or> y = PosInf \<Longrightarrow> isFin (min x y)"
  by (cases x; cases y) (auto simp: min_def)

lemma NegInf_less_Fin: "isFin x \<Longrightarrow> NegInf < x"
  by (cases x) (auto simp: less_num_def)

lemma checkWinner_None_empty:
  assumes "checkWinner b = None" and "length b = 9"
  shows "\<exists>j < 9. cellAt b j = Some Empty"
proof -
  from assms(1) have "\<not> list_all (\<lambda>c. c \<noteq> Empty) b"
    by (auto simp: checkWinner_def split: option.splits if_splits)
  then have "Empty \<in> set b" by (auto simp: list_all_iff)
  then obtain j where "j < length b" "b ! j = Empty" by (auto simp: in_set_conv_nth)
  with assms(2) show ?thesis by (auto simp: cellAt_def)
qed

lemma minimax_isFin:
  "length b = 9 \<Longrightarrow> isFin (fst (minimax ai b d m alpha beta))"
  "length b = 9 \<Longrightarrow> isFin ms \<or> (ms = NegInf \<and> (\<exists>j. i \<le> j \<and> j < 9 \<and> cellAt b j = Some Empty)) \<Longrightarrow>
     isFin (fst (maxLoop ai b d i ms alpha beta))"
  "length b = 9 \<Longrightarrow> isFin ms \<or> (ms = PosInf \<and> (\<exists>j. i \<le> j \<and> j < 9 \<and> cellAt b j = Some Empty)) \<Longrightarrow>
     isFin (fst (minLoop ai b d i ms alpha beta))"
proof (induct ai b d m alpha beta and ai b d i ms alpha beta and ai b d i ms alpha beta
       rule: search_induct)
  case (node ai b d m alpha beta)
  show ?case
  proof (cases "checkWinner b")
    case (Some r)
    then show ?thesis by (simp add: minimax_score)
  next
    case None
    from checkWinner_None_empty[OF None node(3)]
    have e: "\<exists>j. 0 \<le> j \<and> j < 9 \<and> cellAt b j = Some Empty" by auto
    show ?thesis
    proof (cases m)
      case True
      with None node(1)[OF None True node(3)] e show ?thesis by (simp add: minimax_score)
    next
      case False
      with None node(2)[OF None False node(3)] e show ?thesis by (simp add: minimax_score)
    qed
  qed
next
  case (maxLoop ai b d i ms alpha beta)
  let ?sc = "fst (minimax ai (b[i := Mark (aiPlayer ai)]) (d + 1) False alpha beta)"
  show ?case
  proof (cases "i < 9")
    case False
    with maxLoop(5) show ?thesis by (subst maxLoop_score) auto
  next
    case lt: True
    show ?thesis
    proof (cases "cellAt b i = Some Empty")
      case True
      from maxLoop(1)[OF lt True] maxLoop(4) have sc: "isFin ?sc" by simp
      from maxLoop(5) have "isFin ms \<or> ms = NegInf" by auto
      with sc have mx: "isFin (max ?sc ms)" by (rule isFin_max)
      show ?thesis
      proof (cases "beta \<le> max alpha ?sc")
        case True
        with lt \<open>cellAt b i = Some Empty\<close> mx show ?thesis by (subst maxLoop_score) simp
      next
        case False
        from maxLoop(2)[OF lt \<open>cellAt b i = Some Empty\<close> False maxLoop(4)] mx
        have "isFin (fst (maxLoop ai b d (i + 1) (max ?sc ms) (max alpha ?sc) beta))" by simp
        with lt \<open>cellAt b i = Some Empty\<close> False show ?thesis by (subst maxLoop_score) simp
      qed
    next
      case False
      from maxLoop(5) False have "isFin ms \<or> (ms = NegInf \<and> (\<exists>j. i + 1 \<le> j \<and> j < 9 \<and> cellAt b j = Some Empty))"
        by (metis Suc_eq_plus1 Suc_leI le_neq_implies_less)
      from maxLoop(3)[OF lt False maxLoop(4) this] lt False show ?thesis
        by (subst maxLoop_score) simp
    qed
  qed
next
  case (minLoop ai b d i ms alpha beta)
  let ?sc = "fst (minimax ai (b[i := Mark (humanPlayer ai)]) (d + 1) True alpha beta)"
  show ?case
  proof (cases "i < 9")
    case False
    with minLoop(5) show ?thesis by (subst minLoop_score) auto
  next
    case lt: True
    show ?thesis
    proof (cases "cellAt b i = Some Empty")
      case True
      from minLoop(1)[OF lt True] minLoop(4) have sc: "isFin ?sc" by simp
      from minLoop(5) have "isFin ms \<or> ms = PosInf" by auto
      with sc have mx: "isFin (min ?sc ms)" by (rule isFin_min)
      show ?thesis
      proof (cases "min beta ?sc \<le> alpha")
        case True
        with lt \<open>cellAt b i = Some Empty\<close> mx show ?thesis by (subst minLoop_score) simp
      next
        case False
        from minLoop(2)[OF lt \<open>cellAt b i = Some Empty\<close> False minLoop(4)] mx
        have "isFin (fst (minLoop ai b d (i + 1) (min ?sc ms) alpha (min beta ?sc)))" by simp
        with lt \<open>cellAt b i = Some Empty\<close> False show ?thesis by (subst minLoop_score) simp
      qed
    next
      case False
      from minLoop(5) False have "isFin ms \<or> (ms = PosInf \<and> (\<exists>j. i + 1 \<le> j \<and> j < 9 \<and> cellAt b j = Some Empty))"
        by (metis Suc_eq_plus1 Suc_leI le_neq_implies_less)
      from minLoop(3)[OF lt False minLoop(4) this] lt False show ?thesis
        by (subst minLoop_score) simp
    qed
  qed
qed

section \<open>The move selectors\<close>

text \<open>The score \<^verbatim>\<open>getBestMove\<close> computes for the empty cell \<open>j\<close>.\<close>

definition moveScore :: "TicTacToeAI \<Rightarrow> board \<Rightarrow> nat \<Rightarrow> num" where
  "moveScore ai b j = fst (minimax ai (b[j := Mark (aiPlayer ai)]) 0 False NegInf PosInf)"

lemma bestLoop_unfold:
  "bestLoop ai b i bs bm =
     (if i < 9 then
        (if cellAt b i = Some Empty then
           (if moveScore ai b i > bs
            then bestLoop ai b (i + 1) (moveScore ai b i) (int i)
            else bestLoop ai b (i + 1) bs bm)
         else bestLoop ai b (i + 1) bs bm)
      else (bm, b))"
proof (cases "i < 9 \<and> cellAt b i = Some Empty")
  case False
  then show ?thesis by (auto simp: bestLoop.simps[of ai b i])
next
  case True
  then have u: "(b[i := Mark (aiPlayer ai)])[i := Empty] = b"
    using place_undo[of b i] by simp
  show ?thesis
    using True u
    by (subst bestLoop.simps, subst minimax_pair)
       (simp add: moveScore_def del: list_update_overwrite)
qed

lemma winScan_unfold:
  "winScan ai b i =
     (if i < 9 then
        (if cellAt b i = Some Empty then
           (if checkWinner (b[i := Mark (aiPlayer ai)]) = Some (Winner (aiPlayer ai))
            then (Some i, b)
            else winScan ai b (i + 1))
         else winScan ai b (i + 1))
      else (None, b))"
proof (cases "i < 9 \<and> cellAt b i = Some Empty")
  case False
  then show ?thesis by (auto simp: winScan.simps[of ai b i])
next
  case True
  then have u: "(b[i := Mark (aiPlayer ai)])[i := Empty] = b"
    using place_undo[of b i] by simp
  show ?thesis
    using True u by (subst winScan.simps) (simp del: list_update_overwrite)
qed

lemma blockScan_unfold:
  "blockScan ai b i =
     (if i < 9 then
        (if cellAt b i = Some Empty then
           (if checkWinner (b[i := Mark (humanPlayer ai)]) = Some (Winner (humanPlayer ai))
            then (Some i, b)
            else blockScan ai b (i + 1))
         else blockScan ai b (i + 1))
      else (None, b))"
proof (cases "i < 9 \<and> cellAt b i = Some Empty")
  case False
  then show ?thesis by (auto simp: blockScan.simps[of ai b i])
next
  case True
  then have u: "(b[i := Mark (humanPlayer ai)])[i := Empty] = b"
    using place_undo[of b i] by simp
  show ?thesis
    using True u by (subst blockScan.simps) (simp del: list_update_overwrite)
qed

lemma bestLoop_frame: "snd (bestLoop ai b i bs bm) = b"
proof (induction "9 - i" arbitrary: i bs bm)
  case 0
  then show ?case by (subst bestLoop_unfold) simp
next
  case (Suc n)
  then have "n = 9 - (i + 1)" by simp
  from Suc(1)[OF this] show ?case by (subst bestLoop_unfold) simp
qed

lemma winScan_frame: "snd (winScan ai b i) = b"
proof (induction "9 - i" arbitrary: i)
  case 0
  then show ?case by (subst winScan_unfold) simp
next
  case (Suc n)
  then have "n = 9 - (i + 1)" by simp
  from Suc(1)[OF this] show ?case by (subst winScan_unfold) simp
qed

lemma blockScan_frame: "snd (blockScan ai b i) = b"
proof (induction "9 - i" arbitrary: i)
  case 0
  then show ?case by (subst blockScan_unfold) simp
next
  case (Suc n)
  then have "n = 9 - (i + 1)" by simp
  from Suc(1)[OF this] show ?case by (subst blockScan_unfold) simp
qed

lemma getMediumMove_frame: "snd (getMediumMove ai b k) = b"
proof -
  obtain r1 where r1: "winScan ai b 0 = (r1, b)"
    using winScan_frame[of ai b 0] by (cases "winScan ai b 0") simp
  obtain r2 where r2: "blockScan ai b 0 = (r2, b)"
    using blockScan_frame[of ai b 0] by (cases "blockScan ai b 0") simp
  show ?thesis
    by (simp add: getMediumMove_def r1 r2 split: option.splits)
qed

text \<open>
  Claim C8: for every input board, the board that \<^verbatim>\<open>getBestMove\<close> and
  \<^verbatim>\<open>getMediumMove\<close> hand back is the input board, cell for cell: every hypothetical
  mark written during the evaluation, also before a pruning \<^verbatim>\<open>break\<close> and before an
  early \<^verbatim>\<open>return\<close>, has been taken back.
\<close>

theorem move_selectors_restore_board:
  "snd (getBestMove ai b) = b \<and> snd (getMediumMove ai b k) = b"
  by (simp add: getBestMove_def bestLoop_frame getMediumMove_frame)

definition bestInv :: "TicTacToeAI \<Rightarrow> board \<Rightarrow> nat \<Rightarrow> num \<Rightarrow> int \<Rightarrow> bool" where
  "bestInv ai b i bs bm \<longleftrightarrow>
     (bm = - 1 \<and> bs = NegInf \<and> (\<forall>j<i. cellAt b j \<noteq> Some Empty))
     \<or> (\<exists>m. bm = int m \<and> m < i \<and> cellAt b m = Some Empty \<and> bs = moveScore ai b m
            \<and> (\<forall>j<i. cellAt b j = Some Empty \<longrightarrow> moveScore ai b j \<le> bs)
            \<and> (\<forall>j<m. cellAt b j = Some Empty \<longrightarrow> moveScore ai b j < bs))"

lemma moveScore_isFin: "length b = 9 \<Longrightarrow> isFin (moveScore ai b j)"
  by (simp add: moveScore_def minimax_isFin(1))

lemma bestInv_step:
  assumes len: "length b = 9" and inv: "bestInv ai b i bs bm"
  shows "cellAt b i \<noteq> Some Empty \<Longrightarrow> bestInv ai b (i + 1) bs bm"
    and "cellAt b i = Some Empty \<Longrightarrow> moveScore ai b i > bs \<Longrightarrow>
           bestInv ai b (i + 1) (moveScore ai b i) (int i)"
    and "cellAt b i = Some Empty \<Longrightarrow> \<not> moveScore ai b i > bs \<Longrightarrow>
           bestInv ai b (i + 1) bs bm"
proof -
  show "bestInv ai b (i + 1) bs bm" if "cellAt b i \<noteq> Some Empty"
    using inv that unfolding bestInv_def
    by (auto simp: less_Suc_eq)
  show "bestInv ai b (i + 1) (moveScore ai b i) (int i)"
    if e: "cellAt b i = Some Empty" and gt: "moveScore ai b i > bs"
  proof -
    have "\<forall>j<i. cellAt b j = Some Empty \<longrightarrow> moveScore ai b j < moveScore ai b i"
      using inv gt unfolding bestInv_def by (auto intro: le_less_trans)
    then have "\<forall>j<i + 1. cellAt b j = Some Empty \<longrightarrow> moveScore ai b j \<le> moveScore ai b i"
      by (auto simp: less_Suc_eq intro: less_imp_le)
    with \<open>\<forall>j<i. cellAt b j = Some Empty \<longrightarrow> moveScore ai b j < moveScore ai b i\<close> e
    show ?thesis unfolding bestInv_def by auto
  qed
  show "bestInv ai b (i + 1) bs bm"
    if e: "cellAt b i = Some Empty" and ngt: "\<not> moveScore ai b i > bs"
  proof -
    have "bs \<noteq> NegInf"
      using ngt NegInf_less_Fin[OF moveScore_isFin[OF len, of ai i]] by auto
    with inv obtain m where m: "bm = int m" "m < i" "cellAt b m = Some Empty"
      "bs = moveScore ai b m"
      "\<forall>j<i. cellAt b j = Some Empty \<longrightarrow> moveScore ai b j \<le> bs"
      "\<forall>j<m. cellAt b j = Some Empty \<longrightarrow> moveScore ai b j < bs"
      unfolding bestInv_def by auto
    from m(5) ngt have "\<forall>j<i + 1. cellAt b j = Some Empty \<longrightarrow> moveScore ai b j \<le> bs"
      by (auto simp: less_Suc_eq not_less)
    with m show ?thesis unfolding bestInv_def by auto
  qed
qed

lemma bestLoop_inv:
  assumes "length b = 9"
  shows "i \<le> 9 \<Longrightarrow> bestInv ai b i bs bm \<Longrightarrow> \<exists>bs'. bestInv ai b 9 bs' (fst (bestLoop ai b i bs bm))"
proof (induction "9 - i" arbitrary: i bs bm)
  case 0
  then have "i = 9" by simp
  with 0 show ?case by (subst bestLoop_unfold) auto
next
  case (Suc n)
  then have n: "n = 9 - (i + 1)" and lt: "i < 9" and le: "i + 1 \<le> 9" by simp_all
  note step = bestInv_step[OF assms Suc(4)]
  show ?case
  proof (cases "cellAt b i = Some Empty")
    case False
    from Suc(1)[OF n le step(1)[OF False]] lt False show ?thesis
      by (subst bestLoop_unfold) simp
  next
    case True
    show ?thesis
    proof (cases "moveScore ai b i > bs")
      case gt: True
      from Suc(1)[OF n le step(2)[OF True gt]] lt True gt show ?thesis
        by (subst bestLoop_unfold) simp
    next
      case ngt: False
      from Suc(1)[OF n le step(3)[OF True ngt]] lt True ngt show ?thesis
        by (subst bestLoop_unfold) simp
    qed
  qed
qed

lemma getBestMove_inv:
  assumes "length b = 9"
  shows "\<exists>bs'. bestInv ai b 9 bs' (fst (getBestMove ai b))"
  unfolding getBestMove_def
  by (rule bestLoop_inv[OF assms]) (simp_all add: bestInv_def)

lemma less_9_cases: "(j::nat) < 9 \<Longrightarrow> j \<in> {0, 1, 2, 3, 4, 5, 6, 7, 8}"
  by auto

definition oneEmptyBoard :: board where
  "oneEmptyBoard =
     [Mark PlayerX, Mark PlayerO, Mark PlayerX,
      Mark PlayerX, Mark PlayerO, Mark PlayerO,
      Mark PlayerO, Mark PlayerX, Empty]"

definition threeEmptyBoard :: board where
  "threeEmptyBoard =
     [Mark PlayerX, Mark PlayerO, Mark PlayerX,
      Empty, Mark PlayerO, Empty,
      Mark PlayerO, Mark PlayerX, Empty]"

text \<open>
  Claim C10: on a nine-cell board \<^verbatim>\<open>getBestMove\<close> returns the sentinel \<open>-1\<close> exactly
  when no cell is empty, and otherwise the index, in 0-8, of an empty cell.
\<close>

theorem getBestMove_sentinel:
  assumes "length b = 9"
  shows "(fst (getBestMove ai b) = - 1 \<longleftrightarrow> Empty \<notin> set b)
         \<and> (Empty \<in> set b \<longrightarrow> (\<exists>m<9. fst (getBestMove ai b) = int m \<and> b ! m = Empty))"
proof -
  have mem: "Empty \<in> set b \<longleftrightarrow> (\<exists>j<9. cellAt b j = Some Empty)"
    using assms by (auto simp: cellAt_def in_set_conv_nth)
  from getBestMove_inv[OF assms, of ai] obtain bs' where
    "bestInv ai b 9 bs' (fst (getBestMove ai b))" ..
  then show ?thesis
    unfolding bestInv_def mem using assms by (auto simp: cellAt_def)
qed

theorem getBestMove_sentinel_witness:
  "length drawnBoard = 9 \<and> fst (getBestMove gameAI drawnBoard) = - 1
   \<and> length oneEmptyBoard = 9 \<and> fst (getBestMove gameAI oneEmptyBoard) = 8"
proof -
  have l1: "length drawnBoard = 9" and l2: "length oneEmptyBoard = 9"
    by (simp_all add: drawnBoard_def oneEmptyBoard_def)
  have "Empty \<notin> set drawnBoard" by (simp add: drawnBoard_def)
  with getBestMove_sentinel[OF l1, of gameAI]
  have a: "fst (getBestMove gameAI drawnBoard) = - 1" by simp
  have "Empty \<in> set oneEmptyBoard" by (simp add: oneEmptyBoard_def)
  with getBestMove_sentinel[OF l2, of gameAI] obtain m where
    m: "m < 9" "fst (getBestMove gameAI oneEmptyBoard) = int m" "oneEmptyBoard ! m = Empty"
    by blast
  have "m = 8"
    using less_9_cases[OF m(1)] m(3) by (auto simp: oneEmptyBoard_def)
  with m a l1 l2 show ?thesis by simp
qed

text \<open>
  Claim C6: on a nine-cell board with at least one empty cell \<^verbatim>\<open>getBestMove\<close> returns
  an empty cell whose score is the greatest among the empty cells, and every empty cell
  with a smaller index has a strictly smaller score: of equally scored cells the first
  wins.
\<close>

theorem getBestMove_first_maximum:
  assumes "length b = 9" and "Empty \<in> set b"
  shows "\<exists>m<9. fst (getBestMove ai b) = int m \<and> b ! m = Empty
           \<and> (\<forall>j<9. b ! j = Empty \<longrightarrow> moveScore ai b j \<le> moveScore ai b m)
           \<and> (\<forall>j<m. b ! j = Empty \<longrightarrow> moveScore ai b j < moveScore ai b m)"
proof -
  from assms obtain j0 where j0: "j0 < 9" "cellAt b j0 = Some Empty"
    by (auto simp: cellAt_def in_set_conv_nth)
  from getBestMove_inv[OF assms(1), of ai] obtain bs' where
    "bestInv ai b 9 bs' (fst (getBestMove ai b))" ..
  with j0 obtain m where m: "fst (getBestMove ai b) = int m" "m < 9" "cellAt b m = Some Empty"
      "bs' = moveScore ai b m"
      "\<forall>j<9. cellAt b j = Some Empty \<longrightarrow> moveScore ai b j \<le> bs'"
      "\<forall>j<m. cellAt b j = Some Empty \<longrightarrow> moveScore ai b j < bs'"
    unfolding bestInv_def by auto
  show ?thesis
  proof (intro exI[of _ m] conjI allI impI)
    show "m < 9" by fact
    show "fst (getBestMove ai b) = int m" by fact
    show "b ! m = Empty" using m(3) by (auto dest: cellAt_EmptyD)
    show "moveScore ai b j \<le> moveScore ai b m" if "j < 9" "b ! j = Empty" for j
      using m(5) that assms(1) unfolding m(4) by (simp add: cellAt_def)
    show "moveScore ai b j < moveScore ai b m" if "j < m" "b ! j = Empty" for j
      using m(6) that assms(1) \<open>m < 9\<close> unfolding m(4) by (simp add: cellAt_def)
  qed
qed

theorem getBestMove_first_maximum_witness:
  "length threeEmptyBoard = 9 \<and> Empty \<in> set threeEmptyBoard
   \<and> fst (getBestMove gameAI threeEmptyBoard) = 3
   \<and> (\<exists>m<9. fst (getBestMove gameAI threeEmptyBoard) = int m \<and> threeEmptyBoard ! m = Empty
        \<and> (\<forall>j<9. threeEmptyBoard ! j = Empty \<longrightarrow>
              moveScore gameAI threeEmptyBoard j \<le> moveScore gameAI threeEmptyBoard m)
        \<and> (\<forall>j<m. threeEmptyBoard ! j = Empty \<longrightarrow>
              moveScore gameAI threeEmptyBoard j < moveScore gameAI threeEmptyBoard m))"
proof -
  have l: "length threeEmptyBoard = 9" and e: "Empty \<in> set threeEmptyBoard"
    by (simp_all add: threeEmptyBoard_def)
  have v: "fst (getBestMove gameAI threeEmptyBoard) = 3" by code_simp
  from getBestMove_first_maximum[OF l e, of gameAI] l e v show ?thesis by simp
qed

section \<open>Winning lines\<close>

text \<open>Player \<open>p\<close> holds all three cells of a pattern; \<open>p\<close> holds some winning line.\<close>

definition lineOf :: "board \<Rightarrow> player \<Rightarrow> pattern \<Rightarrow> bool" where
  "lineOf b p pat =
     (case pat of (a, b', c) \<Rightarrow>
        cellAt b a = Some (Mark p) \<and> cellAt b b' = Some (Mark p) \<and> cellAt b c = Some (Mark p))"

definition wins :: "board \<Rightarrow> player \<Rightarrow> bool" where
  "wins b p = (\<exists>pat \<in> set winPatterns. lineOf b p pat)"

lemma lineComplete_iff: "lineComplete b pat \<longleftrightarrow> (\<exists>p. lineOf b p pat)"
  by (cases pat) (simp add: lineComplete_def lineOf_def)

lemma scanPatterns_Some:
  "scanPatterns b ps = Some (p, pat) \<Longrightarrow> pat \<in> set ps \<and> lineOf b p pat"
proof (induction ps)
  case Nil
  then show ?case by simp
next
  case (Cons q ps)
  obtain a b' c where q: "q = (a, b', c)" by (cases q)
  from Cons show ?case
    unfolding q
    by (auto simp: lineOf_def split: option.splits cell.splits if_splits)
qed

lemma checkWinner_Winner: "checkWinner b = Some (Winner p) \<Longrightarrow> wins b p"
  by (auto simp: checkWinner_def wins_def split: option.splits if_splits
           dest: scanPatterns_Some)

lemma wins_checkWinner:
  assumes "wins b p"
  shows "\<exists>q. checkWinner b = Some (Winner q) \<and> wins b q"
proof -
  from assms have "scanPatterns b winPatterns \<noteq> None"
    by (auto simp: scanPatterns_None_iff wins_def lineComplete_iff)
  then obtain q pat where "scanPatterns b winPatterns = Some (q, pat)" by auto
  then show ?thesis
    by (auto simp: checkWinner_def wins_def dest: scanPatterns_Some)
qed

lemma no_wins_checkWinner:
  assumes "\<And>p. \<not> wins b p"
  shows "checkWinner b = (if Empty \<notin> set b then Some Draw else None)"
proof -
  from assms have "scanPatterns b winPatterns = None"
    by (auto simp: scanPatterns_None_iff wins_def lineComplete_iff)
  then show ?thesis by (auto simp: checkWinner_def list_all_iff)
qed

lemma two_players: "p \<noteq> q \<Longrightarrow> r = p \<or> r = (q::player)"
  by (cases p; cases q; cases r) auto

text \<open>
  The winner of a board: the mark that holds the first completed line in the order of
  \<open>winPatterns\<close>.  When only one mark holds a line, that mark is the winner.
\<close>

definition winnerIs :: "board \<Rightarrow> player \<Rightarrow> bool" where
  "winnerIs b p \<longleftrightarrow>
     (\<exists>pre pat post. winPatterns = pre @ pat # post \<and> lineOf b p pat
        \<and> (\<forall>q \<in> set pre. \<not> lineComplete b q))"

lemma scanPatterns_skip:
  "\<not> lineComplete b q \<Longrightarrow> scanPatterns b (q # ps) = scanPatterns b ps"
  by (cases q) (auto simp: lineComplete_def split: option.splits cell.splits)

lemma scanPatterns_hit:
  "lineOf b p pat \<Longrightarrow> scanPatterns b (pat # ps) = Some (p, pat)"
  by (cases pat) (auto simp: lineOf_def)

lemma scanPatterns_first:
  assumes "lineOf b p pat" and "\<forall>q \<in> set pre. \<not> lineComplete b q"
  shows "scanPatterns b (pre @ pat # post) = Some (p, pat)"
  using assms(2) by (induction pre) (simp_all add: scanPatterns_hit[OF assms(1)] scanPatterns_skip)

lemma winnerIs_checkWinner:
  assumes "winnerIs b p"
  shows "checkWinner b = Some (Winner p)"
proof -
  from assms obtain pre pat post where w: "winPatterns = pre @ pat # post"
    and l: "lineOf b p pat" and n: "\<forall>q \<in> set pre. \<not> lineComplete b q"
    unfolding winnerIs_def by blast
  from scanPatterns_first[OF l n, of post] w
  have "scanPatterns b winPatterns = Some (p, pat)" by simp
  then show ?thesis by (simp add: checkWinner_def)
qed

lemma checkWinner_winnerIs:
  assumes "checkWinner b = Some (Winner p)"
  shows "winnerIs b p"
proof -
  have *: "scanPatterns b ps = Some (p, pat) \<Longrightarrow>
      \<exists>pre post. ps = pre @ pat # post \<and> lineOf b p pat \<and> (\<forall>q \<in> set pre. \<not> lineComplete b q)"
    for ps pat
  proof (induction ps)
    case Nil
    then show ?case by simp
  next
    case (Cons q ps)
    show ?case
    proof (cases "lineComplete b q")
      case False
      with Cons.prems have "scanPatterns b ps = Some (p, pat)" by (simp add: scanPatterns_skip)
      from Cons.IH[OF this] obtain pre post where
        "ps = pre @ pat # post" "lineOf b p pat" "\<forall>q \<in> set pre. \<not> lineComplete b q" by blast
      with False have "q # ps = (q # pre) @ pat # post \<and> lineOf b p pat
          \<and> (\<forall>q' \<in> set (q # pre). \<not> lineComplete b q')" by simp
      then show ?thesis by blast
    next
      case True
      then obtain p' where "lineOf b p' q" by (auto simp: lineComplete_iff)
      from scanPatterns_hit[OF this, of ps] Cons.prems \<open>lineOf b p' q\<close>
      have "q # ps = [] @ pat # ps \<and> lineOf b p pat \<and> (\<forall>q' \<in> set []. \<not> lineComplete b q')"
        by simp
      then show ?thesis by blast
    qed
  qed
  from assms obtain pat where "scanPatterns b winPatterns = Some (p, pat)"
    by (auto simp: checkWinner_def split: option.splits if_splits)
  from *[OF this] show ?thesis unfolding winnerIs_def by blast
qed

lemma only_winner:
  assumes "wins b p" and "\<And>q. wins b q \<Longrightarrow> q = p"
  shows "winnerIs b p"
proof -
  from wins_checkWinner[OF assms(1)] obtain q where
    "checkWinner b = Some (Winner q)" "wins b q" by blast
  with assms(2) show ?thesis by (auto intro: checkWinner_winnerIs)
qed

text \<open>
  Claim C5: on a terminal board, whatever the other arguments, \<^verbatim>\<open>minimax\<close> at depth
  \<open>d\<close> returns \<open>10 - d\<close> when the winner is the AI's mark, \<open>d - 10\<close> when the winner
  is the opponent's mark, and \<open>0\<close> when the board is full and no line is completed.  (The
  two marks of the AI are taken to differ.)
\<close>

theorem minimax_terminal_score:
  assumes "aiPlayer ai \<noteq> humanPlayer ai"
  shows "(winnerIs b (aiPlayer ai) \<longrightarrow> fst (minimax ai b d m alpha beta) = Fin (10 - d))
       \<and> (winnerIs b (humanPlayer ai) \<longrightarrow> fst (minimax ai b d m alpha beta) = Fin (d - 10))
       \<and> ((\<forall>pat \<in> set winPatterns. \<not> lineComplete b pat) \<and> Empty \<notin> set b
            \<longrightarrow> fst (minimax ai b d m alpha beta) = Fin 0)"
proof (intro conjI impI)
  assume "winnerIs b (aiPlayer ai)"
  then show "fst (minimax ai b d m alpha beta) = Fin (10 - d)"
    by (simp add: minimax_score winnerIs_checkWinner)
next
  assume "winnerIs b (humanPlayer ai)"
  with assms show "fst (minimax ai b d m alpha beta) = Fin (d - 10)"
    by (simp add: minimax_score winnerIs_checkWinner)
next
  assume a: "(\<forall>pat \<in> set winPatterns. \<not> lineComplete b pat) \<and> Empty \<notin> set b"
  then have "\<not> wins b p" for p by (auto simp: wins_def lineComplete_iff)
  from no_wins_checkWinner[OF this] a have "checkWinner b = Some Draw" by simp
  then show "fst (minimax ai b d m alpha beta) = Fin 0"
    by (simp add: minimax_score)
qed

definition xWonBoard :: board where
  "xWonBoard =
     [Mark PlayerX, Mark PlayerX, Mark PlayerX,
      Empty, Empty, Empty,
      Mark PlayerO, Mark PlayerO, Empty]"

definition oWonBoard :: board where
  "oWonBoard =
     [Mark PlayerX, Mark PlayerX, Empty,
      Mark PlayerO, Mark PlayerO, Mark PlayerO,
      Mark PlayerX, Empty, Empty]"

lemma winnerIs_code: "winnerIs b p \<longleftrightarrow> checkWinner b = Some (Winner p)"
  by (auto intro: winnerIs_checkWinner checkWinner_winnerIs)

theorem minimax_terminal_score_witness:
  "aiPlayer gameAI \<noteq> humanPlayer gameAI
   \<and> winnerIs oWonBoard (aiPlayer gameAI)
   \<and> fst (minimax gameAI oWonBoard 3 True (Fin (- 2)) PosInf) = Fin 7
   \<and> winnerIs xWonBoard (humanPlayer gameAI)
   \<and> fst (minimax gameAI xWonBoard 4 False NegInf (Fin 5)) = Fin (- 6)
   \<and> list_all (\<lambda>pat. \<not> lineComplete drawnBoard pat) winPatterns \<and> Empty \<notin> set drawnBoard
   \<and> fst (minimax gameAI drawnBoard 9 True NegInf PosInf) = Fin 0"
proof -
  have d: "aiPlayer gameAI \<noteq> humanPlayer gameAI" by (simp add: gameAI_def)
  have w: "winnerIs oWonBoard (aiPlayer gameAI)" "winnerIs xWonBoard (humanPlayer gameAI)"
    unfolding winnerIs_code by code_simp+
  have n: "\<forall>pat \<in> set winPatterns. \<not> lineComplete drawnBoard pat"
    using scanPatterns_drawnBoard by (simp add: scanPatterns_None_iff)
  have e: "Empty \<notin> set drawnBoard" by (simp add: drawnBoard_def)
  from minimax_terminal_score[OF d, of oWonBoard 3 True "Fin (- 2)" PosInf] w
  have 1: "fst (minimax gameAI oWonBoard 3 True (Fin (- 2)) PosInf) = Fin 7" by simp
  from minimax_terminal_score[OF d, of xWonBoard 4 False NegInf "Fin 5"] w
  have 2: "fst (minimax gameAI xWonBoard 4 False NegInf (Fin 5)) = Fin (- 6)" by simp
  from minimax_terminal_score[OF d, of drawnBoard 9 True NegInf PosInf] n e
  have 3: "fst (minimax gameAI drawnBoard 9 True NegInf PosInf) = Fin 0" by simp
  from d w n e 1 2 3 show ?thesis by (simp add: list_all_iff)
qed

section \<open>The medium strategy\<close>

text \<open>
  Placing \<open>p\<close>'s mark on the empty cell \<open>i\<close> completes a winning line for \<open>p\<close>: some
  line that \<open>p\<close> did not hold is held by \<open>p\<close> afterwards.
\<close>

definition completesLine :: "board \<Rightarrow> player \<Rightarrow> nat \<Rightarrow> bool" where
  "completesLine b p i \<longleftrightarrow>
     cellAt b i = Some Empty
     \<and> (\<exists>pat \<in> set winPatterns. lineOf (b[i := Mark p]) p pat \<and> \<not> lineOf b p pat)"

text \<open>What the first scan of \<^verbatim>\<open>getMediumMove\<close> tests at cell \<open>j\<close>.\<close>

definition takes :: "TicTacToeAI \<Rightarrow> board \<Rightarrow> nat \<Rightarrow> bool" where
  "takes ai b j \<longleftrightarrow>
     cellAt b j = Some Empty
     \<and> checkWinner (b[j := Mark (aiPlayer ai)]) = Some (Winner (aiPlayer ai))"

lemma winScan_spec:
  "case fst (winScan ai b i) of
     Some m \<Rightarrow> i \<le> m \<and> m < 9 \<and> takes ai b m \<and> (\<forall>j. i \<le> j \<and> j < m \<longrightarrow> \<not> takes ai b j)
   | None \<Rightarrow> (\<forall>j. i \<le> j \<and> j < 9 \<longrightarrow> \<not> takes ai b j)"
proof (induction "9 - i" arbitrary: i)
  case 0
  then show ?case by (subst winScan_unfold) auto
next
  case (Suc n)
  then have n: "n = 9 - (i + 1)" and lt: "i < 9" by simp_all
  have up: "i \<le> j \<longleftrightarrow> j = i \<or> i + 1 \<le> j" for j by auto
  show ?case
  proof (cases "takes ai b i")
    case True
    with lt show ?thesis by (subst winScan_unfold) (auto simp: takes_def)
  next
    case False
    then have eq: "winScan ai b i = winScan ai b (i + 1)"
      using lt by (subst winScan_unfold) (auto simp: takes_def)
    from Suc(1)[OF n] False show ?thesis
      unfolding eq by (auto split: option.splits simp: up)
  qed
qed

lemma cellAt_update:
  "cellAt (b[i := v]) a = (if a = i \<and> i < length b then Some v else cellAt b a)"
  by (simp add: cellAt_def)

lemma lineOf_other_mark:
  assumes "lineOf (b[i := Mark p]) q pat" and "q \<noteq> p"
  shows "lineOf b q pat"
  using assms by (cases pat) (auto simp: lineOf_def cellAt_update split: if_splits)

lemma takes_iff_completesLine:
  assumes noline: "\<forall>pat \<in> set winPatterns. \<not> lineComplete b pat"
  shows "takes ai b i \<longleftrightarrow> completesLine b (aiPlayer ai) i"
proof
  assume t: "takes ai b i"
  then have "wins (b[i := Mark (aiPlayer ai)]) (aiPlayer ai)"
    by (auto simp: takes_def dest: checkWinner_Winner)
  then obtain pat where "pat \<in> set winPatterns" "lineOf (b[i := Mark (aiPlayer ai)]) (aiPlayer ai) pat"
    by (auto simp: wins_def)
  moreover from this noline have "\<not> lineOf b (aiPlayer ai) pat"
    by (auto simp: lineComplete_iff)
  ultimately show "completesLine b (aiPlayer ai) i"
    using t by (auto simp: completesLine_def takes_def)
next
  assume c: "completesLine b (aiPlayer ai) i"
  then have "wins (b[i := Mark (aiPlayer ai)]) (aiPlayer ai)"
    by (auto simp: completesLine_def wins_def)
  from wins_checkWinner[OF this] obtain q where
    q: "checkWinner (b[i := Mark (aiPlayer ai)]) = Some (Winner q)"
       "wins (b[i := Mark (aiPlayer ai)]) q" by blast
  have "q = aiPlayer ai"
  proof (rule ccontr)
    assume ne: "q \<noteq> aiPlayer ai"
    from q(2) obtain pat where pat: "pat \<in> set winPatterns"
      "lineOf (b[i := Mark (aiPlayer ai)]) q pat" by (auto simp: wins_def)
    from lineOf_other_mark[OF pat(2) ne] pat(1) noline show False
      by (auto simp: lineComplete_iff)
  qed
  with q(1) c show "takes ai b i" by (simp add: takes_def completesLine_def)
qed

lemma pattern_bound:
  assumes "(a, b', c) \<in> set winPatterns"
  shows "a < 9 \<and> b' < 9 \<and> c < 9"
  using assms by (auto simp: winPatterns_def)

lemma completesLine_bound:
  assumes "completesLine b p i"
  shows "i < 9"
proof -
  from assms obtain pat where pat: "pat \<in> set winPatterns"
    "lineOf (b[i := Mark p]) p pat" "\<not> lineOf b p pat"
    by (auto simp: completesLine_def)
  obtain a b' c where abc: "pat = (a, b', c)" by (cases pat)
  from pat(2,3) have "i = a \<or> i = b' \<or> i = c"
    unfolding abc by (auto simp: lineOf_def cellAt_update split: if_splits)
  with pattern_bound[of a b' c] pat(1) abc show ?thesis by auto
qed

definition mediumScenarioBoard :: board where
  "mediumScenarioBoard =
     [Mark PlayerX, Mark PlayerX, Empty,
      Mark PlayerO, Mark PlayerO, Empty,
      Empty, Empty, Empty]"

lemma completesLine_code:
  "completesLine b p i \<longleftrightarrow>
     cellAt b i = Some Empty
     \<and> list_ex (\<lambda>pat. lineOf (b[i := Mark p]) p pat \<and> \<not> lineOf b p pat) winPatterns"
  by (simp add: completesLine_def list_ex_iff)

text \<open>
  Claim C7 as stated fails on a board that already holds a completed line.  With the AI
  playing O on X X X / - - - / O O -, cell 8 is empty and completes the line 6-7-8 for O, and
  no smaller cell does; yet \<^verbatim>\<open>getMediumMove\<close> returns 3.  \<^verbatim>\<open>checkWinner\<close> reports the
  first completed line in pattern order, here X's top row, so the first scan never sees O
  as the winner, and the second scan returns the first empty cell.
\<close>

theorem getMediumMove_won_board_counterexample:
  "completesLine xWonBoard (aiPlayer gameAI) 8
   \<and> \<not> completesLine xWonBoard (aiPlayer gameAI) 3
   \<and> fst (getMediumMove gameAI xWonBoard 0) = Some 3"
proof -
  have "completesLine xWonBoard (aiPlayer gameAI) 8"
    unfolding completesLine_code by code_simp
  moreover have "\<not> completesLine xWonBoard (aiPlayer gameAI) 3"
    unfolding completesLine_code by code_simp
  moreover have "fst (getMediumMove gameAI xWonBoard 0) = Some 3"
    by code_simp
  ultimately show ?thesis by simp
qed

text \<open>
  Claim C7, amended: for every board on which no line is completed yet, if some empty cell
  completes a winning line for the AI's mark, \<^verbatim>\<open>getMediumMove\<close> returns the smallest such
  index, whether or not the opponent also threatens to win; in particular it returns 5,
  not 2, on X X - / O O - / - - - with the AI playing O.
\<close>

theorem getMediumMove_takes_first_win:
  assumes "\<forall>pat \<in> set winPatterns. \<not> lineComplete b pat"
    and "completesLine b (aiPlayer ai) i"
  shows "\<exists>m. fst (getMediumMove ai b k) = Some m
             \<and> completesLine b (aiPlayer ai) m
             \<and> (\<forall>j<m. \<not> completesLine b (aiPlayer ai) j)"
proof -
  note iff = takes_iff_completesLine[OF assms(1), of ai]
  from assms(2) have i: "i < 9" "takes ai b i"
    by (simp_all add: completesLine_bound iff)
  obtain r where r: "winScan ai b 0 = (r, b)"
    using winScan_frame[of ai b 0] by (cases "winScan ai b 0") simp
  from winScan_spec[where ai=ai and b=b and i=0] r i obtain m where
    m: "r = Some m" "takes ai b m" "\<forall>j<m. \<not> takes ai b j"
    by (cases r) auto
  from r m(1) have "fst (getMediumMove ai b k) = Some m"
    by (simp add: getMediumMove_def)
  with m(2,3) show ?thesis by (auto simp: iff)
qed

theorem getMediumMove_takes_first_win_witness:
  "list_all (\<lambda>pat. \<not> lineComplete mediumScenarioBoard pat) winPatterns
   \<and> completesLine mediumScenarioBoard (aiPlayer gameAI) 5
   \<and> completesLine mediumScenarioBoard (humanPlayer gameAI) 2
   \<and> fst (getMediumMove gameAI mediumScenarioBoard 0) = Some 5"
proof -
  have "scanPatterns mediumScenarioBoard winPatterns = None" by code_simp
  then have h: "\<forall>pat \<in> set winPatterns. \<not> lineComplete mediumScenarioBoard pat"
    by (simp add: scanPatterns_None_iff)
  have c5: "completesLine mediumScenarioBoard (aiPlayer gameAI) 5"
    unfolding completesLine_code by code_simp
  have c2: "completesLine mediumScenarioBoard (humanPlayer gameAI) 2"
    unfolding completesLine_code by code_simp
  have n: "\<not> completesLine mediumScenarioBoard (aiPlayer gameAI) j" if "j < 5" for j
  proof -
    from that have "j \<in> {0, 1, 2, 3, 4}" by auto
    moreover have "\<not> completesLine mediumScenarioBoard (aiPlayer gameAI) 0"
      "\<not> completesLine mediumScenarioBoard (aiPlayer gameAI) 1"
      "\<not> completesLine mediumScenarioBoard (aiPlayer gameAI) 2"
      "\<not> completesLine mediumScenarioBoard (aiPlayer gameAI) 3"
      "\<not> completesLine mediumScenarioBoard (aiPlayer gameAI) 4"
      unfolding completesLine_code by code_simp+
    ultimately show ?thesis by auto
  qed
  from getMediumMove_takes_first_win[OF h c5, of 0] obtain m where
    m: "fst (getMediumMove gameAI mediumScenarioBoard 0) = Some m"
       "completesLine mediumScenarioBoard (aiPlayer gameAI) m"
       "\<forall>j<m. \<not> completesLine mediumScenarioBoard (aiPlayer gameAI) j" by blast
  from m(3) c5 have "\<not> 5 < m" by blast
  moreover from m(2) n have "\<not> m < 5" by blast
  ultimately have "m = 5" by simp
  with m(1) h c5 c2 show ?thesis by (simp add: list_all_iff)
qed

section \<open>The random strategy on a full board\<close>

lemma no_Empty_cellAt: "Empty \<notin> set b \<Longrightarrow> cellAt b i \<noteq> Some Empty"
  by (metis cellAt_EmptyD nth_mem)

lemma winScan_full: "Empty \<notin> set b \<Longrightarrow> winScan ai b i = (None, b)"
proof (induction "9 - i" arbitrary: i)
  case 0
  then show ?case by (subst winScan_unfold) simp
next
  case (Suc n)
  then have "n = 9 - (i + 1)" by simp
  from Suc(1)[OF this Suc(3)] no_Empty_cellAt[OF Suc(3)] show ?case
    by (subst winScan_unfold) simp
qed

lemma blockScan_full: "Empty \<notin> set b \<Longrightarrow> blockScan ai b i = (None, b)"
proof (induction "9 - i" arbitrary: i)
  case 0
  then show ?case by (subst blockScan_unfold) simp
next
  case (Suc n)
  then have "n = 9 - (i + 1)" by simp
  from Suc(1)[OF this Suc(3)] no_Empty_cellAt[OF Suc(3)] show ?case
    by (subst blockScan_unfold) simp
qed

text \<open>
  Claim C9 as stated fails: on a board without an empty cell \<^verbatim>\<open>getRandomMove\<close>, and
  \<^verbatim>\<open>getMediumMove\<close> through its fallback, signal nothing.  They index an empty array and
  return \<^verbatim>\<open>undefined\<close> (\<open>None\<close>) as the move.
\<close>

theorem getRandomMove_full_board_counterexample:
  "Empty \<notin> set drawnBoard
   \<and> getRandomMove drawnBoard 0 = None
   \<and> getMediumMove gameAI drawnBoard 0 = (None, drawnBoard)"
proof -
  have "Empty \<notin> set drawnBoard" by (simp add: drawnBoard_def)
  moreover have "getRandomMove drawnBoard 0 = None" by code_simp
  moreover have "getMediumMove gameAI drawnBoard 0 = (None, drawnBoard)" by code_simp
  ultimately show ?thesis by simp
qed

text \<open>
  Claim C9, amended: for every board with zero empty cells, \<^verbatim>\<open>getRandomMove\<close> and, via
  its fallback, \<^verbatim>\<open>getMediumMove\<close> return \<^verbatim>\<open>undefined\<close> instead of a move, whatever the
  random source yields; no error is signalled.
\<close>

theorem getRandomMove_full_board_undefined:
  assumes "Empty \<notin> set b"
  shows "getRandomMove b k = None \<and> fst (getMediumMove ai b k) = None"
proof -
  from no_Empty_cellAt[OF assms] have "emptyCells b = []"
    by (simp add: emptyCells_def)
  then have r: "getRandomMove b k = None" by (simp add: getRandomMove_def)
  with winScan_full[OF assms] blockScan_full[OF assms] show ?thesis
    by (simp add: getMediumMove_def)
qed

theorem getRandomMove_full_board_undefined_witness:
  "Empty \<notin> set drawnBoard
   \<and> getRandomMove drawnBoard 3 = None \<and> fst (getMediumMove gameAI drawnBoard 3) = None"
proof -
  have e: "Empty \<notin> set drawnBoard" by (simp add: drawnBoard_def)
  from getRandomMove_full_board_undefined[OF e, of 3 gameAI] e show ?thesis by simp
qed

section \<open>Optimal play\<close>

text \<open>
  The value of a position by exhaustive search, without pruning: the reference against
  which the pruned search is judged.
\<close>

function gameValue :: "TicTacToeAI \<Rightarrow> board \<Rightarrow> int \<Rightarrow> bool \<Rightarrow> num"
  and valueMax :: "TicTacToeAI \<Rightarrow> board \<Rightarrow> int \<Rightarrow> nat \<Rightarrow> num"
  and valueMin :: "TicTacToeAI \<Rightarrow> board \<Rightarrow> int \<Rightarrow> nat \<Rightarrow> num"
where
  "gameValue ai b d m =
     (case checkWinner b of
        Some r \<Rightarrow>
          if r = Winner (aiPlayer ai) then Fin (10 - d)
          else if r = Winner (humanPlayer ai) then Fin (d - 10)
          else Fin 0
      | None \<Rightarrow> if m then valueMax ai b d 0 else valueMin ai b d 0)"
| "valueMax ai b d i =
     (if i < 9 then
        (if cellAt b i = Some Empty
         then max (gameValue ai (b[i := Mark (aiPlayer ai)]) (d + 1) False) (valueMax ai b d (i + 1))
         else valueMax ai b d (i + 1))
      else NegInf)"
| "valueMin ai b d i =
     (if i < 9 then
        (if cellAt b i = Some Empty
         then min (gameValue ai (b[i := Mark (humanPlayer ai)]) (d + 1) True) (valueMin ai b d (i + 1))
         else valueMin ai b d (i + 1))
      else PosInf)"
  by pat_completeness auto
termination
  apply (relation "measure (\<lambda>x. case x of
          Inl (ai, b, d, m) \<Rightarrow> empties b * 11 + 10
        | Inr (Inl (ai, b, d, i)) \<Rightarrow> empties b * 11 + (9 - i)
        | Inr (Inr (ai, b, d, i)) \<Rightarrow> empties b * 11 + (9 - i))")
  apply (simp_all add: term_inner)
  done

declare gameValue.simps [simp del] valueMax.simps [simp del] valueMin.simps [simp del]

text \<open>
  How the result \<open>r\<close> of a search with window \<open>(alpha, beta)\<close> is related to the true
  value \<open>v\<close>: exact inside the window, a bound on the proper side outside.
\<close>

definition within :: "num \<Rightarrow> num \<Rightarrow> num \<Rightarrow> num \<Rightarrow> bool" where
  "within alpha beta v r \<longleftrightarrow>
     (r \<le> alpha \<longrightarrow> v \<le> r) \<and> (alpha < r \<and> r < beta \<longrightarrow> r = v) \<and> (beta \<le> r \<longrightarrow> r \<le> v)"

lemma within_refl: "within alpha beta v v"
  by (simp add: within_def)

lemma maxLoop_step_cut:
  fixes alpha beta ms sc v1 V' :: num
  assumes "ms \<le> alpha" "alpha < beta" "within alpha beta v1 sc" "beta \<le> max alpha sc"
  shows "ms \<le> max sc ms \<and> within alpha beta (max v1 V') (max sc ms)"
proof -
  from assms(2,4) have b: "beta \<le> sc" by (metis le_max_iff_disj not_le)
  with assms(1,2) have ms: "ms \<le> sc" by order
  then have m: "max sc ms = sc" by (simp add: max.absorb1)
  from assms(3) b have "sc \<le> v1" by (simp add: within_def)
  then have "sc \<le> max v1 V'" by (simp add: le_max_iff_disj)
  moreover from b assms(2) have "\<not> sc \<le> alpha" "\<not> sc < beta" by order+
  ultimately have "within alpha beta (max v1 V') sc"
    by (simp add: within_def)
  with m ms show ?thesis by simp
qed

lemma maxLoop_step_go:
  fixes alpha beta ms sc v1 V' r :: num
  assumes A1: "ms \<le> alpha" and A2: "alpha < beta" and W1: "within alpha beta v1 sc"
    and NC: "\<not> beta \<le> max alpha sc"
    and L: "max sc ms \<le> r" and W2: "within (max alpha sc) beta V' r"
  shows "ms \<le> r \<and> within alpha beta (max v1 V') r"
proof -
  from L have scr: "sc \<le> r" and msr: "ms \<le> r" by simp_all
  from NC have scb: "sc < beta" by (simp add: not_le)
  have i: "max v1 V' \<le> r" if "r \<le> alpha"
  proof -
    from that scr have sa: "sc \<le> alpha" by order
    with W1 have "v1 \<le> sc" by (simp add: within_def)
    with scr have "v1 \<le> r" by order
    moreover from sa have "max alpha sc = alpha" by (simp add: max.absorb1)
    with W2 that have "V' \<le> r" by (simp add: within_def)
    ultimately show ?thesis by (simp add: max.bounded_iff)
  qed
  have ii: "r = max v1 V'" if ar: "alpha < r" and rb: "r < beta"
  proof (cases "sc \<le> alpha")
    case True
    with W1 have "v1 \<le> sc" by (simp add: within_def)
    with True ar have "v1 < r" by order
    moreover from True have "max alpha sc = alpha" by (simp add: max.absorb1)
    with W2 ar rb have "r = V'" by (simp add: within_def)
    ultimately show ?thesis by (simp add: max.absorb2 less_imp_le)
  next
    case False
    then have as: "alpha < sc" by (simp add: not_le)
    with W1 scb have v1: "sc = v1" by (simp add: within_def)
    from as have mx: "max alpha sc = sc" by (simp add: max.absorb2 less_imp_le)
    show ?thesis
    proof (cases "r \<le> sc")
      case True
      with scr have rs: "r = sc" by order
      from W2 True have "V' \<le> r" unfolding mx by (simp add: within_def)
      with rs v1 show ?thesis by (simp add: max.absorb1)
    next
      case False
      then have "sc < r" by (simp add: not_le)
      with W2 rb have "r = V'" unfolding mx by (simp add: within_def)
      with \<open>sc < r\<close> v1 show ?thesis by (simp add: max.absorb2 less_imp_le)
    qed
  qed
  have iii: "r \<le> max v1 V'" if "beta \<le> r"
  proof -
    from W2 that have "r \<le> V'" by (simp add: within_def)
    then show ?thesis by (simp add: le_max_iff_disj)
  qed
  from i ii iii msr show ?thesis by (simp add: within_def)
qed

lemma minLoop_step_cut:
  fixes alpha beta ms sc v1 V' :: num
  assumes "beta \<le> ms" "alpha < beta" "within alpha beta v1 sc" "min beta sc \<le> alpha"
  shows "min sc ms \<le> ms \<and> within alpha beta (min v1 V') (min sc ms)"
proof -
  from assms(2,4) have b: "sc \<le> alpha" by (metis min_le_iff_disj not_le)
  with assms(1,2) have ms: "sc \<le> ms" by order
  then have m: "min sc ms = sc" by (simp add: min.absorb1)
  from assms(3) b have "v1 \<le> sc" by (simp add: within_def)
  then have "min v1 V' \<le> sc" by (simp add: min_le_iff_disj)
  moreover from b assms(2) have "\<not> beta \<le> sc" "\<not> alpha < sc" by order+
  ultimately have "within alpha beta (min v1 V') sc"
    by (simp add: within_def)
  with m ms show ?thesis by simp
qed

lemma minLoop_step_go:
  fixes alpha beta ms sc v1 V' r :: num
  assumes A1: "beta \<le> ms" and A2: "alpha < beta" and W1: "within alpha beta v1 sc"
    and NC: "\<not> min beta sc \<le> alpha"
    and L: "r \<le> min sc ms" and W2: "within alpha (min beta sc) V' r"
  shows "r \<le> ms \<and> within alpha beta (min v1 V') r"
proof -
  from L have scr: "r \<le> sc" and msr: "r \<le> ms" by simp_all
  from NC have sca: "alpha < sc" by (simp add: not_le)
  have iii: "r \<le> min v1 V'" if "beta \<le> r"
  proof -
    from that scr have sa: "beta \<le> sc" by order
    with W1 have "sc \<le> v1" by (simp add: within_def)
    with scr have "r \<le> v1" by order
    moreover from sa have "min beta sc = beta" by (simp add: min.absorb1)
    with W2 that have "r \<le> V'" by (simp add: within_def)
    ultimately show ?thesis by (simp add: min.bounded_iff)
  qed
  have ii: "r = min v1 V'" if ar: "alpha < r" and rb: "r < beta"
  proof (cases "beta \<le> sc")
    case True
    with W1 have "sc \<le> v1" by (simp add: within_def)
    with True rb have "r < v1" by order
    moreover from True have "min beta sc = beta" by (simp add: min.absorb1)
    with W2 ar rb have "r = V'" by (simp add: within_def)
    ultimately show ?thesis by (simp add: min.absorb2 less_imp_le)
  next
    case False
    then have as: "sc < beta" by (simp add: not_le)
    with W1 sca have v1: "sc = v1" by (simp add: within_def)
    from as have mx: "min beta sc = sc" by (simp add: min.absorb2 less_imp_le)
    show ?thesis
    proof (cases "sc \<le> r")
      case True
      with scr have rs: "r = sc" by order
      from W2 True have "r \<le> V'" unfolding mx by (simp add: within_def)
      with rs v1 show ?thesis by (simp add: min.absorb1)
    next
      case False
      then have "r < sc" by (simp add: not_le)
      with W2 ar have "r = V'" unfolding mx by (simp add: within_def)
      with \<open>r < sc\<close> v1 show ?thesis by (simp add: min.absorb2 less_imp_le)
    qed
  qed
  have i: "min v1 V' \<le> r" if "r \<le> alpha"
  proof -
    from W2 that have "V' \<le> r" by (simp add: within_def)
    then show ?thesis by (simp add: min_le_iff_disj)
  qed
  from i ii iii msr show ?thesis by (simp add: within_def)
qed

lemma NegInf_least [simp]: "NegInf \<le> (x::num)"
  by simp

lemma PosInf_greatest [simp]: "(x::num) \<le> PosInf"
  by (cases x) simp_all

lemma within_base_max:
  fixes alpha beta ms :: num
  assumes "ms \<le> alpha" "alpha < beta"
  shows "within alpha beta NegInf ms"
proof -
  from assms have "\<not> alpha < ms" "\<not> beta \<le> ms" by order+
  then show ?thesis by (simp add: within_def)
qed

lemma within_base_min:
  fixes alpha beta ms :: num
  assumes "beta \<le> ms" "alpha < beta"
  shows "within alpha beta PosInf ms"
proof -
  from assms have "\<not> ms < beta" "\<not> ms \<le> alpha" by order+
  then show ?thesis by (simp add: within_def)
qed

lemma gameValue_leaf:
  "checkWinner b = Some r \<Longrightarrow> gameValue ai b d m = fst (minimax ai b d m alpha beta)"
  by (simp add: gameValue.simps minimax_score)

text \<open>The pruned search against the exhaustive one, for every window.\<close>

lemma alphabeta_within:
  "alpha < beta \<Longrightarrow>
     within alpha beta (gameValue ai b d m) (fst (minimax ai b d m alpha beta))"
  "ms \<le> alpha \<Longrightarrow> alpha < beta \<Longrightarrow>
     ms \<le> fst (maxLoop ai b d i ms alpha beta)
     \<and> within alpha beta (valueMax ai b d i) (fst (maxLoop ai b d i ms alpha beta))"
  "beta \<le> ms \<Longrightarrow> alpha < beta \<Longrightarrow>
     fst (minLoop ai b d i ms alpha beta) \<le> ms
     \<and> within alpha beta (valueMin ai b d i) (fst (minLoop ai b d i ms alpha beta))"
proof (induct ai b d m alpha beta and ai b d i ms alpha beta and ai b d i ms alpha beta
       rule: search_induct)
  case (node ai b d m alpha beta)
  show ?case
  proof (cases "checkWinner b")
    case (Some r)
    from gameValue_leaf[OF Some, of ai d m alpha beta] show ?thesis
      by (simp add: within_refl)
  next
    case None
    show ?thesis
    proof (cases m)
      case True
      from node(1)[OF None True _ node(3)] None True show ?thesis
        by (simp add: gameValue.simps minimax_score)
    next
      case False
      from node(2)[OF None False _ node(3)] None False show ?thesis
        by (simp add: gameValue.simps minimax_score)
    qed
  qed
next
  case (maxLoop ai b d i ms alpha beta)
  let ?sc = "fst (minimax ai (b[i := Mark (aiPlayer ai)]) (d + 1) False alpha beta)"
  let ?v1 = "gameValue ai (b[i := Mark (aiPlayer ai)]) (d + 1) False"
  show ?case
  proof (cases "i < 9")
    case False
    then have "fst (maxLoop ai b d i ms alpha beta) = ms"
      by (subst maxLoop_score) simp
    moreover from False have "valueMax ai b d i = NegInf"
      by (subst valueMax.simps) simp
    ultimately show ?thesis using within_base_max[OF maxLoop(4,5)] by simp
  next
    case lt: True
    show ?thesis
    proof (cases "cellAt b i = Some Empty")
      case False
      with lt have "fst (maxLoop ai b d i ms alpha beta) = fst (maxLoop ai b d (i + 1) ms alpha beta)"
        by (subst maxLoop_score) simp
      moreover from lt False have "valueMax ai b d i = valueMax ai b d (i + 1)"
        by (subst valueMax.simps) simp
      ultimately show ?thesis using maxLoop(3)[OF lt False maxLoop(4,5)] by simp
    next
      case True
      from lt True have V: "valueMax ai b d i = max ?v1 (valueMax ai b d (i + 1))"
        by (subst valueMax.simps) simp
      from maxLoop(1)[OF lt True maxLoop(5)] have W1: "within alpha beta ?v1 ?sc" .
      show ?thesis
      proof (cases "beta \<le> max alpha ?sc")
        case cut: True
        with lt True have "fst (maxLoop ai b d i ms alpha beta) = max ?sc ms"
          by (subst maxLoop_score) simp
        with maxLoop_step_cut[OF maxLoop(4,5) W1 cut] V show ?thesis by simp
      next
        case go: False
        with lt True have r: "fst (maxLoop ai b d i ms alpha beta)
            = fst (maxLoop ai b d (i + 1) (max ?sc ms) (max alpha ?sc) beta)"
          by (subst maxLoop_score) simp
        from max.mono[OF order_refl maxLoop(4), of ?sc] have "max ?sc ms \<le> max alpha ?sc"
          by (simp only: max.commute)
        moreover from go have "max alpha ?sc < beta" by (simp add: not_le)
        ultimately have IH: "max ?sc ms \<le> fst (maxLoop ai b d (i + 1) (max ?sc ms) (max alpha ?sc) beta)
          \<and> within (max alpha ?sc) beta (valueMax ai b d (i + 1))
               (fst (maxLoop ai b d (i + 1) (max ?sc ms) (max alpha ?sc) beta))"
          by (rule maxLoop(2)[OF lt True go])
        from maxLoop_step_go[OF maxLoop(4,5) W1 go conjunct1[OF IH] conjunct2[OF IH]]
        show ?thesis unfolding r V .
      qed
    qed
  qed
next
  case (minLoop ai b d i ms alpha beta)
  let ?sc = "fst (minimax ai (b[i := Mark (humanPlayer ai)]) (d + 1) True alpha beta)"
  let ?v1 = "gameValue ai (b[i := Mark (humanPlayer ai)]) (d + 1) True"
  show ?case
  proof (cases "i < 9")
    case False
    then have "fst (minLoop ai b d i ms alpha beta) = ms"
      by (subst minLoop_score) simp
    moreover from False have "valueMin ai b d i = PosInf"
      by (subst valueMin.simps) simp
    ultimately show ?thesis using within_base_min[OF minLoop(4,5)] by simp
  next
    case lt: True
    show ?thesis
    proof (cases "cellAt b i = Some Empty")
      case False
      with lt have "fst (minLoop ai b d i ms alpha beta) = fst (minLoop ai b d (i + 1) ms alpha beta)"
        by (subst minLoop_score) simp
      moreover from lt False have "valueMin ai b d i = valueMin ai b d (i + 1)"
        by (subst valueMin.simps) simp
      ultimately show ?thesis using minLoop(3)[OF lt False minLoop(4,5)] by simp
    next
      case True
      from lt True have V: "valueMin ai b d i = min ?v1 (valueMin ai b d (i + 1))"
        by (subst valueMin.simps) simp
      from minLoop(1)[OF lt True minLoop(5)] have W1: "within alpha beta ?v1 ?sc" .
      show ?thesis
      proof (cases "min beta ?sc \<le> alpha")
        case cut: True
        with lt True have "fst (minLoop ai b d i ms alpha beta) = min ?sc ms"
          by (subst minLoop_score) simp
        with minLoop_step_cut[OF minLoop(4,5) W1 cut] V show ?thesis by simp
      next
        case go: False
        with lt True have r: "fst (minLoop ai b d i ms alpha beta)
            = fst (minLoop ai b d (i + 1) (min ?sc ms) alpha (min beta ?sc))"
          by (subst minLoop_score) simp
        from min.mono[OF order_refl minLoop(4), of ?sc] have "min beta ?sc \<le> min ?sc ms"
          by (simp only: min.commute)
        moreover from go have "alpha < min beta ?sc" by (simp add: not_le)
        ultimately have IH: "fst (minLoop ai b d (i + 1) (min ?sc ms) alpha (min beta ?sc)) \<le> min ?sc ms
          \<and> within alpha (min beta ?sc) (valueMin ai b d (i + 1))
               (fst (minLoop ai b d (i + 1) (min ?sc ms) alpha (min beta ?sc)))"
          by (rule minLoop(2)[OF lt True go])
        from minLoop_step_go[OF minLoop(4,5) W1 go conjunct1[OF IH] conjunct2[OF IH]]
        show ?thesis unfolding r V .
      qed
    qed
  qed
qed

lemma moveScore_gameValue:
  assumes "length b = 9"
  shows "moveScore ai b j = gameValue ai (b[j := Mark (aiPlayer ai)]) 0 False"
proof -
  let ?r = "moveScore ai b j"
  have "isFin ?r" by (rule moveScore_isFin[OF assms])
  then have "NegInf < ?r" "?r < PosInf"
    by (cases ?r; simp add: less_num_def)+
  moreover have "NegInf < PosInf" by (simp add: less_num_def)
  from alphabeta_within(1)[OF this, of ai "b[j := Mark (aiPlayer ai)]" 0 False]
  have "within NegInf PosInf (gameValue ai (b[j := Mark (aiPlayer ai)]) 0 False) ?r"
    by (simp add: moveScore_def)
  ultimately show ?thesis by (simp add: within_def)
qed

text \<open>
  Whether the AI can avoid defeat from a position, by exhaustive search over wins and
  losses alone: some move of the AI, every move of the opponent.
\<close>

function aiSafe :: "TicTacToeAI \<Rightarrow> board \<Rightarrow> bool \<Rightarrow> bool"
  and safeMax :: "TicTacToeAI \<Rightarrow> board \<Rightarrow> nat \<Rightarrow> bool"
  and safeMin :: "TicTacToeAI \<Rightarrow> board \<Rightarrow> nat \<Rightarrow> bool"
where
  "aiSafe ai b m =
     (case checkWinner b of
        Some r \<Rightarrow> r \<noteq> Winner (humanPlayer ai)
      | None \<Rightarrow> if m then safeMax ai b 0 else safeMin ai b 0)"
| "safeMax ai b i =
     (if i < 9 then
        (if cellAt b i = Some Empty then
           (if aiSafe ai (b[i := Mark (aiPlayer ai)]) False then True
            else safeMax ai b (i + 1))
         else safeMax ai b (i + 1))
      else False)"
| "safeMin ai b i =
     (if i < 9 then
        (if cellAt b i = Some Empty then
           (if aiSafe ai (b[i := Mark (humanPlayer ai)]) True then safeMin ai b (i + 1)
            else False)
         else safeMin ai b (i + 1))
      else True)"
  by pat_completeness auto
termination
  apply (relation "measure (\<lambda>x. case x of
          Inl (ai, b, m) \<Rightarrow> empties b * 11 + 10
        | Inr (Inl (ai, b, i)) \<Rightarrow> empties b * 11 + (9 - i)
        | Inr (Inr (ai, b, i)) \<Rightarrow> empties b * 11 + (9 - i))")
  apply (simp_all add: term_inner)
  done

declare aiSafe.simps [simp del] safeMax.simps [simp del] safeMin.simps [simp del]

lemma Fin_le [simp]: "Fin a \<le> Fin b \<longleftrightarrow> a \<le> b"
  by simp

lemma not_Fin_le_NegInf [simp]: "\<not> Fin a \<le> NegInf"
  by simp

text \<open>
  While fewer than ten plies can have been played at the end of the game, the sign of the
  depth-adjusted value tells whether the AI avoids defeat.
\<close>

lemma safe_value:
  assumes ne: "aiPlayer ai \<noteq> humanPlayer ai"
  shows "d + int (empties b) < 10 \<Longrightarrow> (Fin 0 \<le> gameValue ai b d m \<longleftrightarrow> aiSafe ai b m)"
    and "d + int (empties b) < 10 \<Longrightarrow> (Fin 0 \<le> valueMax ai b d i \<longleftrightarrow> safeMax ai b i)"
    and "d + int (empties b) < 10 \<Longrightarrow> (Fin 0 \<le> valueMin ai b d i \<longleftrightarrow> safeMin ai b i)"
  using ne
proof (induct ai b d m and ai b d i and ai b d i rule: gameValue_valueMax_valueMin.induct)
  case (1 ai b d m)
  show ?case
  proof (cases "checkWinner b")
    case (Some r)
    with 1(3,4) show ?thesis
      by (cases r) (auto simp: gameValue.simps aiSafe.simps)
  next
    case None
    with 1 show ?thesis
      by (cases m) (simp_all add: gameValue.simps aiSafe.simps)
  qed
next
  case (2 ai b d i)
  show ?case
  proof (cases "i < 9")
    case False
    then show ?thesis by (simp add: valueMax.simps[of ai b d i] safeMax.simps[of ai b i])
  next
    case lt: True
    show ?thesis
    proof (cases "cellAt b i = Some Empty")
      case False
      with lt 2(3)[OF lt False 2(4,5)] show ?thesis
        by (simp add: valueMax.simps[of ai b d i] safeMax.simps[of ai b i])
    next
      case True
      from empties_place[OF True, of "aiPlayer ai"] 2(4)
      have "d + 1 + int (empties (b[i := Mark (aiPlayer ai)])) < 10" by simp
      from 2(1)[OF lt True this 2(5)] 2(2)[OF lt True 2(4,5)] lt True show ?thesis
        by (simp add: valueMax.simps[of ai b d i] safeMax.simps[of ai b i] le_max_iff_disj)
    qed
  qed
next
  case (3 ai b d i)
  show ?case
  proof (cases "i < 9")
    case False
    then show ?thesis by (simp add: valueMin.simps[of ai b d i] safeMin.simps[of ai b i])
  next
    case lt: True
    show ?thesis
    proof (cases "cellAt b i = Some Empty")
      case False
      with lt 3(3)[OF lt False 3(4,5)] show ?thesis
        by (simp add: valueMin.simps[of ai b d i] safeMin.simps[of ai b i])
    next
      case True
      from empties_place[OF True, of "humanPlayer ai"] 3(4)
      have "d + 1 + int (empties (b[i := Mark (humanPlayer ai)])) < 10" by simp
      from 3(1)[OF lt True this 3(5)] 3(2)[OF lt True 3(4,5)] lt True show ?thesis
        by (simp add: valueMin.simps[of ai b d i] safeMin.simps[of ai b i])
    qed
  qed
qed

lemma safeMax_iff:
  "safeMax ai b i \<longleftrightarrow>
     (\<exists>j. i \<le> j \<and> j < 9 \<and> cellAt b j = Some Empty \<and> aiSafe ai (b[j := Mark (aiPlayer ai)]) False)"
proof (induction "9 - i" arbitrary: i)
  case 0
  then show ?case by (subst safeMax.simps) auto
next
  case (Suc n)
  then have n: "n = 9 - (i + 1)" and lt: "i < 9" by simp_all
  have up: "i \<le> j \<longleftrightarrow> j = i \<or> i + 1 \<le> j" for j by auto
  from Suc(1)[OF n] lt show ?case
    by (subst safeMax.simps) (auto simp: up)
qed

lemma safeMin_iff:
  "safeMin ai b i \<longleftrightarrow>
     (\<forall>j. i \<le> j \<and> j < 9 \<and> cellAt b j = Some Empty \<longrightarrow> aiSafe ai (b[j := Mark (humanPlayer ai)]) True)"
proof (induction "9 - i" arbitrary: i)
  case 0
  then show ?case by (subst safeMin.simps) auto
next
  case (Suc n)
  then have n: "n = 9 - (i + 1)" and lt: "i < 9" by simp_all
  have up: "i \<le> j \<longleftrightarrow> j = i \<or> i + 1 \<le> j" for j by auto
  from Suc(1)[OF n] lt show ?case
    by (subst safeMin.simps) (auto simp: up)
qed

text \<open>Evaluation on explicit nine-cell boards.\<close>

fun lineMark :: "cell \<Rightarrow> cell \<Rightarrow> cell \<Rightarrow> player option" where
  "lineMark Empty y z = None"
| "lineMark (Mark p) y z = (if y = Mark p then (if z = Mark p then Some p else None) else None)"

definition winnerOf :: "board \<Rightarrow> pattern list \<Rightarrow> result option" where
  "winnerOf b ps =
     (case scanPatterns b ps of
        Some (p, pat) \<Rightarrow> Some (Winner p)
      | None \<Rightarrow> if list_all (\<lambda>c. c \<noteq> Empty) b then Some Draw else None)"

lemma winnerOf_Cons:
  "a < length b \<Longrightarrow> b' < length b \<Longrightarrow> c < length b \<Longrightarrow>
   winnerOf b ((a, b', c) # ps) =
     (case lineMark (b ! a) (b ! b') (b ! c) of
        Some p \<Rightarrow> Some (Winner p)
      | None \<Rightarrow> winnerOf b ps)"
  by (cases "b ! a") (auto simp: cellAt_def winnerOf_def)

lemma winnerOf_Nil:
  "winnerOf b [] = (if list_all (\<lambda>c. c \<noteq> Empty) b then Some Draw else None)"
  by (simp add: winnerOf_def)

lemma checkWinner_winnerOf: "checkWinner b = winnerOf b winPatterns"
  by (simp only: checkWinner_def winnerOf_def)

lemma nth9:
  "[c0, c1, c2, c3, c4, c5, c6, c7, c8] ! 0 = c0"
  "[c0, c1, c2, c3, c4, c5, c6, c7, c8] ! 1 = c1"
  "[c0, c1, c2, c3, c4, c5, c6, c7, c8] ! 2 = c2"
  "[c0, c1, c2, c3, c4, c5, c6, c7, c8] ! 3 = c3"
  "[c0, c1, c2, c3, c4, c5, c6, c7, c8] ! 4 = c4"
  "[c0, c1, c2, c3, c4, c5, c6, c7, c8] ! 5 = c5"
  "[c0, c1, c2, c3, c4, c5, c6, c7, c8] ! 6 = c6"
  "[c0, c1, c2, c3, c4, c5, c6, c7, c8] ! 7 = c7"
  "[c0, c1, c2, c3, c4, c5, c6, c7, c8] ! 8 = (c8::'a)"
  by simp_all

lemma checkWinner9:
  "checkWinner [c0, c1, c2, c3, c4, c5, c6, c7, c8] =
     (case lineMark c0 c1 c2 of Some p \<Rightarrow> Some (Winner p) | None \<Rightarrow>
      case lineMark c3 c4 c5 of Some p \<Rightarrow> Some (Winner p) | None \<Rightarrow>
      case lineMark c6 c7 c8 of Some p \<Rightarrow> Some (Winner p) | None \<Rightarrow>
      case lineMark c0 c3 c6 of Some p \<Rightarrow> Some (Winner p) | None \<Rightarrow>
      case lineMark c1 c4 c7 of Some p \<Rightarrow> Some (Winner p) | None \<Rightarrow>
      case lineMark c2 c5 c8 of Some p \<Rightarrow> Some (Winner p) | None \<Rightarrow>
      case lineMark c0 c4 c8 of Some p \<Rightarrow> Some (Winner p) | None \<Rightarrow>
      case lineMark c2 c4 c6 of Some p \<Rightarrow> Some (Winner p) | None \<Rightarrow>
      if list_all (\<lambda>c. c \<noteq> Empty) [c0, c1, c2, c3, c4, c5, c6, c7, c8]
      then Some Draw else None)"
  unfolding checkWinner_winnerOf winPatterns_def
  apply (subst winnerOf_Cons, simp, simp, simp)
  apply (subst winnerOf_Cons, simp, simp, simp)
  apply (subst winnerOf_Cons, simp, simp, simp)
  apply (subst winnerOf_Cons, simp, simp, simp)
  apply (subst winnerOf_Cons, simp, simp, simp)
  apply (subst winnerOf_Cons, simp, simp, simp)
  apply (subst winnerOf_Cons, simp, simp, simp)
  apply (subst winnerOf_Cons, simp, simp, simp)
  apply (subst winnerOf_Nil)
  apply (simp only: nth9)
  done

lemma cellAt9:
  "cellAt [c0, c1, c2, c3, c4, c5, c6, c7, c8] 0 = Some c0"
  "cellAt [c0, c1, c2, c3, c4, c5, c6, c7, c8] 1 = Some c1"
  "cellAt [c0, c1, c2, c3, c4, c5, c6, c7, c8] 2 = Some c2"
  "cellAt [c0, c1, c2, c3, c4, c5, c6, c7, c8] 3 = Some c3"
  "cellAt [c0, c1, c2, c3, c4, c5, c6, c7, c8] 4 = Some c4"
  "cellAt [c0, c1, c2, c3, c4, c5, c6, c7, c8] 5 = Some c5"
  "cellAt [c0, c1, c2, c3, c4, c5, c6, c7, c8] 6 = Some c6"
  "cellAt [c0, c1, c2, c3, c4, c5, c6, c7, c8] 7 = Some c7"
  "cellAt [c0, c1, c2, c3, c4, c5, c6, c7, c8] 8 = Some c8"
  by (simp_all add: cellAt_def)

lemma upd9:
  "[c0, c1, c2, c3, c4, c5, c6, c7, c8][0 := v] = [v, c1, c2, c3, c4, c5, c6, c7, c8]"
  "[c0, c1, c2, c3, c4, c5, c6, c7, c8][1 := v] = [c0, v, c2, c3, c4, c5, c6, c7, c8]"
  "[c0, c1, c2, c3, c4, c5, c6, c7, c8][2 := v] = [c0, c1, v, c3, c4, c5, c6, c7, c8]"
  "[c0, c1, c2, c3, c4, c5, c6, c7, c8][3 := v] = [c0, c1, c2, v, c4, c5, c6, c7, c8]"
  "[c0, c1, c2, c3, c4, c5, c6, c7, c8][4 := v] = [c0, c1, c2, c3, v, c5, c6, c7, c8]"
  "[c0, c1, c2, c3, c4, c5, c6, c7, c8][5 := v] = [c0, c1, c2, c3, c4, v, c6, c7, c8]"
  "[c0, c1, c2, c3, c4, c5, c6, c7, c8][6 := v] = [c0, c1, c2, c3, c4, c5, v, c7, c8]"
  "[c0, c1, c2, c3, c4, c5, c6, c7, c8][7 := v] = [c0, c1, c2, c3, c4, c5, c6, v, c8]"
  "[c0, c1, c2, c3, c4, c5, c6, c7, c8][8 := v] = [c0, c1, c2, c3, c4, c5, c6, c7, (v::'a)]"
  by (simp_all add: numeral_eq_Suc)

lemma safeMax9:
  "safeMax ai [c0, c1, c2, c3, c4, c5, c6, c7, c8] 0 =
     (if c0 = Empty then (if aiSafe ai [Mark (aiPlayer ai), c1, c2, c3, c4, c5, c6, c7, c8] False then True else safeMax ai [c0, c1, c2, c3, c4, c5, c6, c7, c8] 1)
      else safeMax ai [c0, c1, c2, c3, c4, c5, c6, c7, c8] 1)"
  "safeMax ai [c0, c1, c2, c3, c4, c5, c6, c7, c8] 1 =
     (if c1 = Empty then (if aiSafe ai [c0, Mark (aiPlayer ai), c2, c3, c4, c5, c6, c7, c8] False then True else safeMax ai [c0, c1, c2, c3, c4, c5, c6, c7, c8] 2)
      else safeMax ai [c0, c1, c2, c3, c4, c5, c6, c7, c8] 2)"
  "safeMax ai [c0, c1, c2, c3, c4, c5, c6, c7, c8] 2 =
     (if c2 = Empty then (if aiSafe ai [c0, c1, Mark (aiPlayer ai), c3, c4, c5, c6, c7, c8] False then True else safeMax ai [c0, c1, c2, c3, c4, c5, c6, c7, c8] 3)
      else safeMax ai [c0, c1, c2, c3, c4, c5, c6, c7, c8] 3)"
  "safeMax ai [c0, c1, c2, c3, c4, c5, c6, c7, c8] 3 =
     (if c3 = Empty then (if aiSafe ai [c0, c1, c2, Mark (aiPlayer ai), c4, c5, c6, c7, c8] False then True else safeMax ai [c0, c1, c2, c3, c4, c5, c6, c7, c8] 4)
      else safeMax ai [c0, c1, c2, c3, c4, c5, c6, c7, c8] 4)"
  "safeMax ai [c0, c1, c2, c3, c4, c5, c6, c7, c8] 4 =
     (if c4 = Empty then (if aiSafe ai [c0, c1, c2, c3, Mark (aiPlayer ai), c5, c6, c7, c8] False then True else safeMax ai [c0, c1, c2, c3, c4, c5, c6, c7, c8] 5)
      else safeMax ai [c0, c1, c2, c3, c4, c5, c6, c7, c8] 5)"
  "safeMax ai [c0, c1, c2, c3, c4, c5, c6, c7, c8] 5 =
     (if c5 = Empty then (if aiSafe ai [c0, c1, c2, c3, c4, Mark (aiPlayer ai), c6, c7, c8] False then True else safeMax ai [c0, c1, c2, c3, c4, c5, c6, c7, c8] 6)
      else safeMax ai [c0, c1, c2, c3, c4, c5, c6, c7, c8] 6)"
  "safeMax ai [c0, c1, c2, c3, c4, c5, c6, c7, c8] 6 =
     (if c6 = Empty then (if aiSafe ai [c0, c1, c2, c3, c4, c5, Mark (aiPlayer ai), c7, c8] False then True else safeMax ai [c0, c1, c2, c3, c4, c5, c6, c7, c8] 7)
      else safeMax ai [c0, c1, c2, c3, c4, c5, c6, c7, c8] 7)"
  "safeMax ai [c0, c1, c2, c3, c4, c5, c6, c7, c8] 7 =
     (if c7 = Empty then (if aiSafe ai [c0, c1, c2, c3, c4, c5, c6, Mark (aiPlayer ai), c8] False then True else safeMax ai [c0, c1, c2, c3, c4, c5, c6, c7, c8] 8)
      else safeMax ai [c0, c1, c2, c3, c4, c5, c6, c7, c8] 8)"
  "safeMax ai [c0, c1, c2, c3, c4, c5, c6, c7, c8] 8 =
     (if c8 = Empty then (if aiSafe ai [c0, c1, c2, c3, c4, c5, c6, c7, Mark (aiPlayer ai)] False then True else safeMax ai [c0, c1, c2, c3, c4, c5, c6, c7, c8] 9)
      else safeMax ai [c0, c1, c2, c3, c4, c5, c6, c7, c8] 9)"
  "safeMax ai [c0, c1, c2, c3, c4, c5, c6, c7, c8] 9 = False"
  subgoal by (subst safeMax.simps, simp only: cellAt9 upd9, simp)
  subgoal by (subst safeMax.simps, simp only: cellAt9 upd9, simp add: numeral_2_eq_2)
  subgoal by (subst safeMax.simps, simp only: cellAt9 upd9, simp)
  subgoal by (subst safeMax.simps, simp only: cellAt9 upd9, simp)
  subgoal by (subst safeMax.simps, simp only: cellAt9 upd9, simp)
  subgoal by (subst safeMax.simps, simp only: cellAt9 upd9, simp)
  subgoal by (subst safeMax.simps, simp only: cellAt9 upd9, simp)
  subgoal by (subst safeMax.simps, simp only: cellAt9 upd9, simp)
  subgoal by (subst safeMax.simps, simp only: cellAt9 upd9, simp)
  subgoal by (subst safeMax.simps, simp)
  done

lemma safeMin9:
  "safeMin ai [c0, c1, c2, c3, c4, c5, c6, c7, c8] 0 =
     (if c0 = Empty then (if aiSafe ai [Mark (humanPlayer ai), c1, c2, c3, c4, c5, c6, c7, c8] True then safeMin ai [c0, c1, c2, c3, c4, c5, c6, c7, c8] 1 else False)
      else safeMin ai [c0, c1, c2, c3, c4, c5, c6, c7, c8] 1)"
  "safeMin ai [c0, c1, c2, c3, c4, c5, c6, c7, c8] 1 =
     (if c1 = Empty then (if aiSafe ai [c0, Mark (humanPlayer ai), c2, c3, c4, c5, c6, c7, c8] True then safeMin ai [c0, c1, c2, c3, c4, c5, c6, c7, c8] 2 else False)
      else safeMin ai [c0, c1, c2, c3, c4, c5, c6, c7, c8] 2)"
  "safeMin ai [c0, c1, c2, c3, c4, c5, c6, c7, c8] 2 =
     (if c2 = Empty then (if aiSafe ai [c0, c1, Mark (humanPlayer ai), c3, c4, c5, c6, c7, c8] True then safeMin ai [c0, c1, c2, c3, c4, c5, c6, c7, c8] 3 else False)
      else safeMin ai [c0, c1, c2, c3, c4, c5, c6, c7, c8] 3)"
  "safeMin ai [c0, c1, c2, c3, c4, c5, c6, c7, c8] 3 =
     (if c3 = Empty then (if aiSafe ai [c0, c1, c2, Mark (humanPlayer ai), c4, c5, c6, c7, c8] True then safeMin ai [c0, c1, c2, c3, c4, c5, c6, c7, c8] 4 else False)
      else safeMin ai [c0, c1, c2, c3, c4, c5, c6, c7, c8] 4)"
  "safeMin ai [c0, c1, c2, c3, c4, c5, c6, c7, c8] 4 =
     (if c4 = Empty then (if aiSafe ai [c0, c1, c2, c3, Mark (humanPlayer ai), c5, c6, c7, c8] True then safeMin ai [c0, c1, c2, c3, c4, c5, c6, c7, c8] 5 else False)
      else safeMin ai [c0, c1, c2, c3, c4, c5, c6, c7, c8] 5)"
  "safeMin ai [c0, c1, c2, c3, c4, c5, c6, c7, c8] 5 =
     (if c5 = Empty then (if aiSafe ai [c0, c1, c2, c3, c4, Mark (humanPlayer ai), c6, c7, c8] True then safeMin ai [c0, c1, c2, c3, c4, c5, c6, c7, c8] 6 else False)
      else safeMin ai [c0, c1, c2, c3, c4, c5, c6, c7, c8] 6)"
  "safeMin ai [c0, c1, c2, c3, c4, c5, c6, c7, c8] 6 =
     (if c6 = Empty then (if aiSafe ai [c0, c1, c2, c3, c4, c5, Mark (humanPlayer ai), c7, c8] True then safeMin ai [c0, c1, c2, c3, c4, c5, c6, c7, c8] 7 else False)
      else safeMin ai [c0, c1, c2, c3, c4, c5, c6, c7, c8] 7)"
  "safeMin ai [c0, c1, c2, c3, c4, c5, c6, c7, c8] 7 =
     (if c7 = Empty then (if aiSafe ai [c0, c1, c2, c3, c4, c5, c6, Mark (humanPlayer ai), c8] True then safeMin ai [c0, c1, c2, c3, c4, c5, c6, c7, c8] 8 else False)
      else safeMin ai [c0, c1, c2, c3, c4, c5, c6, c7, c8] 8)"
  "safeMin ai [c0, c1, c2, c3, c4, c5, c6, c7, c8] 8 =
     (if c8 = Empty then (if aiSafe ai [c0, c1, c2, c3, c4, c5, c6, c7, Mark (humanPlayer ai)] True then safeMin ai [c0, c1, c2, c3, c4, c5, c6, c7, c8] 9 else False)
      else safeMin ai [c0, c1, c2, c3, c4, c5, c6, c7, c8] 9)"
  "safeMin ai [c0, c1, c2, c3, c4, c5, c6, c7, c8] 9 = True"
  subgoal by (subst safeMin.simps, simp only: cellAt9 upd9, simp)
  subgoal by (subst safeMin.simps, simp only: cellAt9 upd9, simp add: numeral_2_eq_2)
  subgoal by (subst safeMin.simps, simp only: cellAt9 upd9, simp)
  subgoal by (subst safeMin.simps, simp only: cellAt9 upd9, simp)
  subgoal by (subst safeMin.simps, simp only: cellAt9 upd9, simp)
  subgoal by (subst safeMin.simps, simp only: cellAt9 upd9, simp)
  subgoal by (subst safeMin.simps, simp only: cellAt9 upd9, simp)
  subgoal by (subst safeMin.simps, simp only: cellAt9 upd9, simp)
  subgoal by (subst safeMin.simps, simp only: cellAt9 upd9, simp)
  subgoal by (subst safeMin.simps, simp)
  done

lemma aiSafe9:
  "aiSafe ai [c0, c1, c2, c3, c4, c5, c6, c7, c8] m =
     (case checkWinner [c0, c1, c2, c3, c4, c5, c6, c7, c8] of
        Some r \<Rightarrow> r \<noteq> Winner (humanPlayer ai)
      | None \<Rightarrow>
          if m then safeMax ai [c0, c1, c2, c3, c4, c5, c6, c7, c8] 0
          else safeMin ai [c0, c1, c2, c3, c4, c5, c6, c7, c8] 0)"
  by (rule aiSafe.simps)

lemma gameAI_simps: "aiPlayer gameAI = PlayerO" "humanPlayer gameAI = PlayerX"
  by (simp_all add: gameAI_def)

definition mirrorAI :: TicTacToeAI where
  "mirrorAI = \<lparr>aiPlayer = PlayerX, humanPlayer = PlayerO\<rparr>"

lemma mirrorAI_simps: "aiPlayer mirrorAI = PlayerX" "humanPlayer mirrorAI = PlayerO"
  by (simp_all add: mirrorAI_def)

lemmas eval9 = safeMax9 safeMin9 checkWinner9 lineMark.simps gameAI_simps mirrorAI_simps
  list_all_Nil_iff list_all_Cons_iff option.case cell.distinct cell.inject player.distinct
  result.distinct result.inject if_True if_False simp_thms

text \<open>
  The exhaustive search, run once per opening move of the opponent and for either
  assignment of the two marks.
\<close>

lemma safe_O_0: "aiSafe gameAI [Mark PlayerX, Empty, Empty, Empty, Empty, Empty, Empty, Empty, Empty] True"
  by (simp only: aiSafe9 eval9 cong: if_weak_cong option.case_cong_weak)

lemma safe_O_1: "aiSafe gameAI [Empty, Mark PlayerX, Empty, Empty, Empty, Empty, Empty, Empty, Empty] True"
  by (simp only: aiSafe9 eval9 cong: if_weak_cong option.case_cong_weak)

lemma safe_O_2: "aiSafe gameAI [Empty, Empty, Mark PlayerX, Empty, Empty, Empty, Empty, Empty, Empty] True"
  by (simp only: aiSafe9 eval9 cong: if_weak_cong option.case_cong_weak)

lemma safe_O_3: "aiSafe gameAI [Empty, Empty, Empty, Mark PlayerX, Empty, Empty, Empty, Empty, Empty] True"
  by (simp only: aiSafe9 eval9 cong: if_weak_cong option.case_cong_weak)

lemma safe_O_4: "aiSafe gameAI [Empty, Empty, Empty, Empty, Mark PlayerX, Empty, Empty, Empty, Empty] True"
  by (simp only: aiSafe9 eval9 cong: if_weak_cong option.case_cong_weak)

lemma safe_O_5: "aiSafe gameAI [Empty, Empty, Empty, Empty, Empty, Mark PlayerX, Empty, Empty, Empty] True"
  by (simp only: aiSafe9 eval9 cong: if_weak_cong option.case_cong_weak)

lemma safe_O_6: "aiSafe gameAI [Empty, Empty, Empty, Empty, Empty, Empty, Mark PlayerX, Empty, Empty] True"
  by (simp only: aiSafe9 eval9 cong: if_weak_cong option.case_cong_weak)

lemma safe_O_7: "aiSafe gameAI [Empty, Empty, Empty, Empty, Empty, Empty, Empty, Mark PlayerX, Empty] True"
  by (simp only: aiSafe9 eval9 cong: if_weak_cong option.case_cong_weak)

lemma safe_O_8: "aiSafe gameAI [Empty, Empty, Empty, Empty, Empty, Empty, Empty, Empty, Mark PlayerX] True"
  by (simp only: aiSafe9 eval9 cong: if_weak_cong option.case_cong_weak)

lemma safe_X_0: "aiSafe mirrorAI [Mark PlayerO, Empty, Empty, Empty, Empty, Empty, Empty, Empty, Empty] True"
  by (simp only: aiSafe9 eval9 cong: if_weak_cong option.case_cong_weak)

lemma safe_X_1: "aiSafe mirrorAI [Empty, Mark PlayerO, Empty, Empty, Empty, Empty, Empty, Empty, Empty] True"
  by (simp only: aiSafe9 eval9 cong: if_weak_cong option.case_cong_weak)

lemma safe_X_2: "aiSafe mirrorAI [Empty, Empty, Mark PlayerO, Empty, Empty, Empty, Empty, Empty, Empty] True"
  by (simp only: aiSafe9 eval9 cong: if_weak_cong option.case_cong_weak)

lemma safe_X_3: "aiSafe mirrorAI [Empty, Empty, Empty, Mark PlayerO, Empty, Empty, Empty, Empty, Empty] True"
  by (simp only: aiSafe9 eval9 cong: if_weak_cong option.case_cong_weak)

lemma safe_X_4: "aiSafe mirrorAI [Empty, Empty, Empty, Empty, Mark PlayerO, Empty, Empty, Empty, Empty] True"
  by (simp only: aiSafe9 eval9 cong: if_weak_cong option.case_cong_weak)

lemma safe_X_5: "aiSafe mirrorAI [Empty, Empty, Empty, Empty, Empty, Mark PlayerO, Empty, Empty, Empty] True"
  by (simp only: aiSafe9 eval9 cong: if_weak_cong option.case_cong_weak)

lemma safe_X_6: "aiSafe mirrorAI [Empty, Empty, Empty, Empty, Empty, Empty, Mark PlayerO, Empty, Empty] True"
  by (simp only: aiSafe9 eval9 cong: if_weak_cong option.case_cong_weak)

lemma safe_X_7: "aiSafe mirrorAI [Empty, Empty, Empty, Empty, Empty, Empty, Empty, Mark PlayerO, Empty] True"
  by (simp only: aiSafe9 eval9 cong: if_weak_cong option.case_cong_weak)

lemma safe_X_8: "aiSafe mirrorAI [Empty, Empty, Empty, Empty, Empty, Empty, Empty, Empty, Mark PlayerO] True"
  by (simp only: aiSafe9 eval9 cong: if_weak_cong option.case_cong_weak)

lemma aiSafe_start_O: "aiSafe gameAI emptyBoard False"
  unfolding emptyBoard_def
  by (subst aiSafe9) (simp only: eval9 safe_O_0 safe_O_1 safe_O_2 safe_O_3 safe_O_4 safe_O_5 safe_O_6 safe_O_7 safe_O_8 cong: if_weak_cong option.case_cong_weak)

lemma aiSafe_start_X: "aiSafe mirrorAI emptyBoard False"
  unfolding emptyBoard_def
  by (subst aiSafe9) (simp only: eval9 safe_X_0 safe_X_1 safe_X_2 safe_X_3 safe_X_4 safe_X_5 safe_X_6 safe_X_7 safe_X_8 cong: if_weak_cong option.case_cong_weak)

lemma aiSafe_start:
  assumes "aiPlayer ai \<noteq> humanPlayer ai"
  shows "aiSafe ai emptyBoard False"
proof -
  have "ai = \<lparr>aiPlayer = aiPlayer ai, humanPlayer = humanPlayer ai\<rparr>" by simp
  with assms have "ai = gameAI \<or> ai = mirrorAI"
    unfolding gameAI_def mirrorAI_def
    by (cases "aiPlayer ai"; cases "humanPlayer ai") simp_all
  with aiSafe_start_O aiSafe_start_X show ?thesis by auto
qed

text \<open>
  The positions of a game in which the opponent moves first on the empty board and the AI
  answers every move with \<^verbatim>\<open>getBestMove\<close>; the game goes on while \<^verbatim>\<open>checkWinner\<close>
  returns \<^verbatim>\<open>null\<close>.  The flag tells whether the opponent is to move.  The AI's move is
  written under the guard of the caller, a move other than \<open>-1\<close>.
\<close>

inductive inPlay :: "TicTacToeAI \<Rightarrow> bool \<Rightarrow> board \<Rightarrow> bool" for ai :: TicTacToeAI where
  start: "inPlay ai True emptyBoard"
| opponent: "inPlay ai True b \<Longrightarrow> checkWinner b = None \<Longrightarrow> cellAt b i = Some Empty \<Longrightarrow>
     inPlay ai False (b[i := Mark (humanPlayer ai)])"
| reply: "inPlay ai False b \<Longrightarrow> checkWinner b = None \<Longrightarrow> getBestMove ai b = (move, b') \<Longrightarrow>
     move \<noteq> - 1 \<Longrightarrow> inPlay ai True (b'[nat move := Mark (aiPlayer ai)])"

lemma empties_le: "empties b \<le> length b"
  by (simp add: empties_def)

lemma aiSafe_gameValue0:
  assumes "aiPlayer ai \<noteq> humanPlayer ai" and "length b = 9"
  shows "Fin 0 \<le> gameValue ai b 0 m \<longleftrightarrow> aiSafe ai b m"
proof -
  from empties_le[of b] assms(2) have "0 + int (empties b) < 10" by simp
  from safe_value(1)[OF assms(1) this] show ?thesis .
qed

lemma wins_after_move:
  assumes "checkWinner b = None" and "wins (b[i := Mark p]) q"
  shows "q = p"
proof (rule ccontr)
  assume "q \<noteq> p"
  from assms(2) obtain pat where pat: "pat \<in> set winPatterns" "lineOf (b[i := Mark p]) q pat"
    by (auto simp: wins_def)
  from lineOf_other_mark[OF pat(2) \<open>q \<noteq> p\<close>] pat(1) have "wins b q"
    by (auto simp: wins_def)
  from wins_checkWinner[OF this] assms(1) show False by simp
qed

lemma not_wins_emptyBoard: "\<not> wins emptyBoard q"
  by (auto simp: wins_def winPatterns_def lineOf_def cellAt_def emptyBoard_def)

text \<open>
  What holds of every position in play: the AI can still avoid defeat, and only the
  player who moved last can hold a line.
\<close>

lemma inPlay_invariant:
  assumes ne: "aiPlayer ai \<noteq> humanPlayer ai" and play: "inPlay ai t b"
  shows "length b = 9 \<and> aiSafe ai b (\<not> t)
         \<and> (\<forall>q. wins b q \<longrightarrow> q = (if t then aiPlayer ai else humanPlayer ai))"
  using play
proof (induction rule: inPlay.induct)
  case start
  show ?case
    using aiSafe_start[OF ne] not_wins_emptyBoard by (simp add: emptyBoard_def)
next
  case (opponent b i)
  then have len: "length b = 9" and safe: "aiSafe ai b False" by simp_all
  from opponent(3) len have i: "i < 9" by (auto dest: cellAt_EmptyD)
  from safe opponent(2) have "safeMin ai b 0" by (simp add: aiSafe.simps)
  with i opponent(3) have "aiSafe ai (b[i := Mark (humanPlayer ai)]) True"
    by (simp add: safeMin_iff)
  with len wins_after_move[OF opponent(2)] show ?case by auto
next
  case (reply b move b')
  then have len: "length b = 9" and safe: "aiSafe ai b True" by simp_all
  from reply(3) have b': "b' = b" and mv: "move = fst (getBestMove ai b)"
    using bestLoop_frame[of ai b 0 NegInf "- 1"] by (auto simp: getBestMove_def)
  from safe reply(2) have "safeMax ai b 0" by (simp add: aiSafe.simps)
  then obtain j where j: "j < 9" "cellAt b j = Some Empty"
    "aiSafe ai (b[j := Mark (aiPlayer ai)]) False"
    by (auto simp: safeMax_iff)
  from j(3) have "Fin 0 \<le> moveScore ai b j"
    using aiSafe_gameValue0[OF ne, of "b[j := Mark (aiPlayer ai)]" False] len
    by (simp add: moveScore_gameValue)
  from getBestMove_inv[OF len, of ai] obtain bs' where
    "bestInv ai b 9 bs' (fst (getBestMove ai b))" ..
  with j(1,2) obtain m where m: "fst (getBestMove ai b) = int m" "m < 9"
    "cellAt b m = Some Empty" "moveScore ai b j \<le> moveScore ai b m"
    unfolding bestInv_def by auto
  from \<open>Fin 0 \<le> moveScore ai b j\<close> m(4) have "Fin 0 \<le> moveScore ai b m" by order
  then have "aiSafe ai (b[m := Mark (aiPlayer ai)]) False"
    using aiSafe_gameValue0[OF ne, of "b[m := Mark (aiPlayer ai)]" False] len
    by (simp add: moveScore_gameValue)
  moreover from mv m(1) have "nat move = m" by simp
  ultimately show ?case
    using len b' wins_after_move[OF reply(2)] by auto
qed

text \<open>
  The AI always has an answer: while the game is undecided \<^verbatim>\<open>getBestMove\<close> returns
  an empty cell, never the sentinel.
\<close>

lemma reply_exists:
  assumes ne: "aiPlayer ai \<noteq> humanPlayer ai" and play: "inPlay ai False b"
    and undecided: "checkWinner b = None"
  shows "\<exists>m<9. getBestMove ai b = (int m, b) \<and> cellAt b m = Some Empty"
proof -
  from inPlay_invariant[OF ne play] have len: "length b = 9" by simp
  from checkWinner_None_empty[OF undecided len] obtain j where j: "j < 9" "cellAt b j = Some Empty"
    by blast
  from getBestMove_inv[OF len, of ai] obtain bs' where
    "bestInv ai b 9 bs' (fst (getBestMove ai b))" ..
  with j obtain m where "fst (getBestMove ai b) = int m" "m < 9" "cellAt b m = Some Empty"
    unfolding bestInv_def by auto
  moreover have "snd (getBestMove ai b) = b"
    by (simp add: getBestMove_def bestLoop_frame)
  ultimately show ?thesis by (metis prod.collapse)
qed

text \<open>
  Claim C1: the AI moving second and choosing every move with \<^verbatim>\<open>getBestMove\<close>, no
  position of the game, in particular no terminal one, is a win for the opponent's mark,
  whatever the opponent plays.
\<close>

theorem getBestMove_never_loses:
  assumes "aiPlayer ai \<noteq> humanPlayer ai" and "inPlay ai t b"
  shows "checkWinner b \<noteq> Some (Winner (humanPlayer ai)) \<and> \<not> wins b (humanPlayer ai)"
proof -
  from inPlay_invariant[OF assms] have
    safe: "aiSafe ai b (\<not> t)" and
    last: "\<And>q. wins b q \<Longrightarrow> q = (if t then aiPlayer ai else humanPlayer ai)" by auto
  from safe have cw: "checkWinner b \<noteq> Some (Winner (humanPlayer ai))"
    by (auto simp: aiSafe.simps)
  have "\<not> wins b (humanPlayer ai)"
  proof
    assume w: "wins b (humanPlayer ai)"
    from wins_checkWinner[OF w] obtain q where
      q: "checkWinner b = Some (Winner q)" "wins b q" by blast
    from last[OF w] last[OF q(2)] have "q = humanPlayer ai" by simp
    with q(1) cw show False by simp
  qed
  with cw show ?thesis by simp
qed

text \<open>
  A sample game: the opponent (X) plays 0, 1, 6, 5, 8 and the AI (O) answers 4, 2, 3, 7;
  the board fills up without a line.
\<close>

definition sampleGame1 :: board where
  "sampleGame1 = [Mark PlayerX, Empty, Empty, Empty, Empty, Empty, Empty, Empty, Empty]"

definition sampleGame2 :: board where
  "sampleGame2 = [Mark PlayerX, Empty, Empty, Empty, Mark PlayerO, Empty, Empty, Empty, Empty]"

definition sampleGame3 :: board where
  "sampleGame3 = [Mark PlayerX, Mark PlayerX, Empty, Empty, Mark PlayerO, Empty, Empty, Empty, Empty]"

definition sampleGame4 :: board where
  "sampleGame4 = [Mark PlayerX, Mark PlayerX, Mark PlayerO, Empty, Mark PlayerO, Empty, Empty, Empty, Empty]"

definition sampleGame5 :: board where
  "sampleGame5 = [Mark PlayerX, Mark PlayerX, Mark PlayerO, Empty, Mark PlayerO, Empty, Mark PlayerX, Empty, Empty]"

definition sampleGame6 :: board where
  "sampleGame6 = [Mark PlayerX, Mark PlayerX, Mark PlayerO, Mark PlayerO, Mark PlayerO, Empty, Mark PlayerX, Empty, Empty]"

definition sampleGame7 :: board where
  "sampleGame7 = [Mark PlayerX, Mark PlayerX, Mark PlayerO, Mark PlayerO, Mark PlayerO, Mark PlayerX, Mark PlayerX, Empty, Empty]"

definition sampleGame8 :: board where
  "sampleGame8 = [Mark PlayerX, Mark PlayerX, Mark PlayerO, Mark PlayerO, Mark PlayerO, Mark PlayerX, Mark PlayerX, Mark PlayerO, Empty]"

definition sampleGame9 :: board where
  "sampleGame9 = [Mark PlayerX, Mark PlayerX, Mark PlayerO, Mark PlayerO, Mark PlayerO, Mark PlayerX, Mark PlayerX, Mark PlayerO, Mark PlayerX]"

lemma first_reply_safe: "aiSafe gameAI [Mark PlayerX, Empty, Empty, Empty, Mark PlayerO, Empty, Empty, Empty, Empty] False"
  by (simp only: aiSafe9 eval9 cong: if_weak_cong option.case_cong_weak)

lemma first_reply_unsafe:
  "\<not> aiSafe gameAI [Mark PlayerX, Mark PlayerO, Empty, Empty, Empty, Empty, Empty, Empty, Empty] False"
  "\<not> aiSafe gameAI [Mark PlayerX, Empty, Mark PlayerO, Empty, Empty, Empty, Empty, Empty, Empty] False"
  "\<not> aiSafe gameAI [Mark PlayerX, Empty, Empty, Mark PlayerO, Empty, Empty, Empty, Empty, Empty] False"
  "\<not> aiSafe gameAI [Mark PlayerX, Empty, Empty, Empty, Empty, Mark PlayerO, Empty, Empty, Empty] False"
  "\<not> aiSafe gameAI [Mark PlayerX, Empty, Empty, Empty, Empty, Empty, Mark PlayerO, Empty, Empty] False"
  "\<not> aiSafe gameAI [Mark PlayerX, Empty, Empty, Empty, Empty, Empty, Empty, Mark PlayerO, Empty] False"
  "\<not> aiSafe gameAI [Mark PlayerX, Empty, Empty, Empty, Empty, Empty, Empty, Empty, Mark PlayerO] False"
  by (simp only: aiSafe9 eval9 cong: if_weak_cong option.case_cong_weak)+

lemma first_reply: "getBestMove gameAI sampleGame1 = (4, sampleGame1)"
proof -
  have len: "length sampleGame1 = 9" by (simp add: sampleGame1_def)
  have ne: "aiPlayer gameAI \<noteq> humanPlayer gameAI" by (simp add: gameAI_simps)
  have sign: "Fin 0 \<le> moveScore gameAI sampleGame1 j
              \<longleftrightarrow> aiSafe gameAI (sampleGame1[j := Mark PlayerO]) False" for j
    using aiSafe_gameValue0[OF ne, of "sampleGame1[j := Mark PlayerO]" False] len
    by (simp add: moveScore_gameValue gameAI_simps)
  have e4: "cellAt sampleGame1 4 = Some Empty" by (simp add: sampleGame1_def cellAt_def)
  from getBestMove_inv[OF len, of gameAI] obtain bs' where
    "bestInv gameAI sampleGame1 9 bs' (fst (getBestMove gameAI sampleGame1))" ..
  with e4 obtain m where m: "fst (getBestMove gameAI sampleGame1) = int m" "m < 9"
    "cellAt sampleGame1 m = Some Empty"
    "moveScore gameAI sampleGame1 4 \<le> moveScore gameAI sampleGame1 m"
    unfolding bestInv_def by auto
  have "Fin 0 \<le> moveScore gameAI sampleGame1 4"
    unfolding sign using first_reply_safe by (simp add: sampleGame1_def)
  with m(4) have "Fin 0 \<le> moveScore gameAI sampleGame1 m" by order
  then have s: "aiSafe gameAI (sampleGame1[m := Mark PlayerO]) False" by (simp only: sign)
  have "m = 4"
    using less_9_cases[OF m(2)] m(3) s first_reply_unsafe
    by (auto simp: sampleGame1_def cellAt_def)
  moreover have "snd (getBestMove gameAI sampleGame1) = sampleGame1"
    by (simp add: getBestMove_def bestLoop_frame)
  ultimately show ?thesis using m(1) by (metis of_nat_numeral prod.collapse)
qed

lemma later_replies:
  "getBestMove gameAI sampleGame3 = (2, sampleGame3)"
  "getBestMove gameAI sampleGame5 = (3, sampleGame5)"
  "getBestMove gameAI sampleGame7 = (7, sampleGame7)"
  by code_simp+

lemma sampleGame_undecided:
  "checkWinner emptyBoard = None" "checkWinner sampleGame1 = None"
  "checkWinner sampleGame2 = None" "checkWinner sampleGame3 = None"
  "checkWinner sampleGame4 = None" "checkWinner sampleGame5 = None"
  "checkWinner sampleGame6 = None" "checkWinner sampleGame7 = None"
  "checkWinner sampleGame8 = None"
  by code_simp+

lemma sampleGame_inPlay: "inPlay gameAI False sampleGame9"
proof -
  note u = sampleGame_undecided
  have 1: "inPlay gameAI False sampleGame1"
    using opponent[OF start u(1), of 0 gameAI]
    by (simp add: emptyBoard_def sampleGame1_def cellAt_def gameAI_simps)
  have 2: "inPlay gameAI True sampleGame2"
    using reply[OF 1 u(2) first_reply]
    by (simp add: sampleGame1_def sampleGame2_def gameAI_simps)
  have 3: "inPlay gameAI False sampleGame3"
    using opponent[OF 2 u(3), of 1]
    by (simp add: sampleGame2_def sampleGame3_def cellAt_def gameAI_simps)
  have 4: "inPlay gameAI True sampleGame4"
    using reply[OF 3 u(4) later_replies(1)]
    by (simp add: sampleGame3_def sampleGame4_def gameAI_simps numeral_eq_Suc)
  have 5: "inPlay gameAI False sampleGame5"
    using opponent[OF 4 u(5), of 6]
    by (simp add: sampleGame4_def sampleGame5_def cellAt_def gameAI_simps)
  have 6: "inPlay gameAI True sampleGame6"
    using reply[OF 5 u(6) later_replies(2)]
    by (simp add: sampleGame5_def sampleGame6_def gameAI_simps numeral_eq_Suc)
  have 7: "inPlay gameAI False sampleGame7"
    using opponent[OF 6 u(7), of 5]
    by (simp add: sampleGame6_def sampleGame7_def cellAt_def gameAI_simps)
  have 8: "inPlay gameAI True sampleGame8"
    using reply[OF 7 u(8) later_replies(3)]
    by (simp add: sampleGame7_def sampleGame8_def gameAI_simps numeral_eq_Suc)
  show ?thesis
    using opponent[OF 8 u(9), of 8]
    by (simp add: sampleGame8_def sampleGame9_def cellAt_def gameAI_simps)
qed

theorem getBestMove_never_loses_witness:
  "aiPlayer gameAI \<noteq> humanPlayer gameAI
   \<and> inPlay gameAI False sampleGame9
   \<and> checkWinner sampleGame9 = Some Draw
   \<and> checkWinner sampleGame9 \<noteq> Some (Winner (humanPlayer gameAI))
   \<and> \<not> wins sampleGame9 (humanPlayer gameAI)"
proof -
  have ne: "aiPlayer gameAI \<noteq> humanPlayer gameAI" by (simp add: gameAI_simps)
  have d: "checkWinner sampleGame9 = Some Draw" by code_simp
  from getBestMove_never_loses[OF ne sampleGame_inPlay] ne sampleGame_inPlay d
  show ?thesis by simp
qed

end
